theory Spec2Isabelle
  imports Complex_Main "HOL-Library.Word"
begin

section \<open>Strings of the host language\<close>

text \<open>
  A JavaScript string is a sequence of UTF-16 code units, so a string is a list of
  16-bit words.  \<open>js\<close> embeds an ASCII literal.
\<close>

type_synonym jschar = "16 word"
type_synonym jsstring = "jschar list"

definition js :: "string \<Rightarrow> jsstring" where
  "js s = map of_char s"

definition CR :: jschar where "CR = 0x0D"
definition LF :: jschar where "LF = 0x0A"
definition COLON :: jschar where "COLON = 0x3A"
definition SPACE :: jschar where "SPACE = 0x20"
definition NUL :: jschar where "NUL = 0"
definition BOM :: jschar where "BOM = 0xFEFF"

text \<open>
  \<open>String.prototype.toLowerCase\<close>, as far as its result can contain an ASCII
  letter: the letters A-Z, U+212A KELVIN SIGN (to k) and U+0130 (to i followed by
  U+0307).  Every other code unit lowercases to code units outside ASCII or to itself,
  and the program only compares the result with ASCII names.
\<close>

definition lowerUnit :: "jschar \<Rightarrow> jsstring" where
  "lowerUnit c =
     (if 0x41 \<le> c \<and> c \<le> 0x5A then [c + 0x20]
      else if c = 0x212A then [0x6B]
      else if c = 0x0130 then [0x69, 0x0307]
      else [c])"

definition toLowerCase :: "jsstring \<Rightarrow> jsstring" where
  "toLowerCase s = concat (map lowerUnit s)"

text \<open>\<open>String.prototype.indexOf\<close> for a one-unit needle: the first index, or -1.\<close>

fun indexOf :: "jsstring \<Rightarrow> jschar \<Rightarrow> int" where
  "indexOf [] c = -1"
| "indexOf (x # xs) c =
     (if x = c then 0 else (let i = indexOf xs c in if i = -1 then -1 else i + 1))"

text \<open>\<open>String.prototype.startsWith\<close>.\<close>

fun startsWith :: "jsstring \<Rightarrow> jsstring \<Rightarrow> bool" where
  "startsWith s [] = True"
| "startsWith [] (p # ps) = False"
| "startsWith (x # xs) (p # ps) = (x = p \<and> startsWith xs ps)"

section \<open>Numbers of the host language\<close>

text \<open>
  A JavaScript number is an IEEE 754 double: a finite value, an infinity or NaN.  The
  finite values are written as reals; the two zeros are one value here, which no
  operation of the program can tell apart (it adds, subtracts, multiplies and compares,
  and never divides).  Every operation rounds its exact result to the nearest double,
  ties to the even significand.
\<close>

datatype jsnumber = Finite real | PosInf | NegInf | NaN

text \<open>The number of binary digits of a natural number, and \<open>2\<close> to an integer power.\<close>

fun bitlen :: "nat \<Rightarrow> nat" where
  "bitlen n = (if n = 0 then 0 else Suc (bitlen (n div 2)))"

declare bitlen.simps [simp del]

definition pow2 :: "int \<Rightarrow> real" where
  "pow2 e = (if 0 \<le> e then 2 ^ nat e else 1 / 2 ^ nat (- e))"

text \<open>The binary exponent of a positive real \<open>x\<close>: the \<open>k\<close> with \<open>2^k \<le> x < 2^(k+1)\<close>.\<close>

definition ilog2 :: "real \<Rightarrow> int" where
  "ilog2 x = (if 1 \<le> x then int (bitlen (nat \<lfloor>x\<rfloor>)) - 1
              else - int (bitlen (nat (\<lceil>1 / x\<rceil> - 1))))"

text \<open>The nearest integer, a tie going to the even one.\<close>

definition roundHalfEven :: "real \<Rightarrow> int" where
  "roundHalfEven y =
     (let f = \<lfloor>y\<rfloor>; d = y - of_int f
      in if d < 1 / 2 then f else if 1 / 2 < d then f + 1
         else if even f then f else f + 1)"

text \<open>
  The double nearest to a real.  A double has a significand of 53 binary digits and
  an exponent that puts its last digit at \<open>2^e\<close> with \<open>-1074 \<le> e \<le> 971\<close>; below the
  normal range the last digit stays at \<open>2^-1074\<close>, and a result of \<open>2^1024\<close> or more is
  an infinity.
\<close>

definition roundDouble :: "real \<Rightarrow> jsnumber" where
  "roundDouble x =
     (if x = 0 then Finite 0
      else
        (let e = max (ilog2 \<bar>x\<bar> - 52) (- 1074);
             m = roundHalfEven (\<bar>x\<bar> / pow2 e);
             y = of_int m * pow2 e
         in if pow2 1024 \<le> y then (if 0 < x then PosInf else NegInf)
            else Finite (if 0 < x then y else - y)))"

text \<open>The operators \<open>+\<close>, unary \<open>-\<close>, binary \<open>-\<close>, \<open>*\<close> and \<open><\<close> on numbers.\<close>

fun jsadd :: "jsnumber \<Rightarrow> jsnumber \<Rightarrow> jsnumber" where
  "jsadd NaN b = NaN"
| "jsadd a NaN = NaN"
| "jsadd PosInf NegInf = NaN"
| "jsadd NegInf PosInf = NaN"
| "jsadd PosInf b = PosInf"
| "jsadd a PosInf = PosInf"
| "jsadd NegInf b = NegInf"
| "jsadd a NegInf = NegInf"
| "jsadd (Finite x) (Finite y) = roundDouble (x + y)"

fun jsneg :: "jsnumber \<Rightarrow> jsnumber" where
  "jsneg NaN = NaN"
| "jsneg PosInf = NegInf"
| "jsneg NegInf = PosInf"
| "jsneg (Finite x) = Finite (- x)"

definition jssub :: "jsnumber \<Rightarrow> jsnumber \<Rightarrow> jsnumber" where
  "jssub a b = jsadd a (jsneg b)"

fun jsmul :: "jsnumber \<Rightarrow> jsnumber \<Rightarrow> jsnumber" where
  "jsmul NaN b = NaN"
| "jsmul a NaN = NaN"
| "jsmul (Finite x) (Finite y) = roundDouble (x * y)"
| "jsmul (Finite x) PosInf = (if x = 0 then NaN else if 0 < x then PosInf else NegInf)"
| "jsmul (Finite x) NegInf = (if x = 0 then NaN else if 0 < x then NegInf else PosInf)"
| "jsmul PosInf (Finite y) = (if y = 0 then NaN else if 0 < y then PosInf else NegInf)"
| "jsmul NegInf (Finite y) = (if y = 0 then NaN else if 0 < y then NegInf else PosInf)"
| "jsmul PosInf PosInf = PosInf"
| "jsmul PosInf NegInf = NegInf"
| "jsmul NegInf PosInf = NegInf"
| "jsmul NegInf NegInf = PosInf"

fun jsless :: "jsnumber \<Rightarrow> jsnumber \<Rightarrow> bool" where
  "jsless NaN b = False"
| "jsless a NaN = False"
| "jsless (Finite x) (Finite y) = (x < y)"
| "jsless PosInf b = False"
| "jsless a PosInf = True"
| "jsless NegInf NegInf = False"
| "jsless NegInf b = True"
| "jsless a NegInf = False"

text \<open>The length of a string as a number (it is below \<open>2^53\<close>, so it is exact).\<close>

definition lengthNumber :: "jsstring \<Rightarrow> jsnumber" where
  "lengthNumber s = Finite (real (length s))"

section \<open>Connection data\<close>

datatype ReadyState = CONNECTING | OPEN | CLOSED

text \<open>
  The internal slots of an \<open>EventSource\<close>.  A request is named by its index in the
  list of requests created so far.
\<close>

record slots =
  request :: "nat option"
  reconnectionTime :: jsnumber
  lastEventId :: jsstring
  readyState :: ReadyState
  additionalReconnectionTime :: jsnumber

text \<open>The per-request parsing state, \<open>state\<close> in \<open>createConnection\<close>.\<close>

record parse_state =
  st_origin :: jsstring
  st_data :: jsstring
  st_type :: jsstring
  st_lastEventId :: "jsstring option"
  st_pos :: nat

text \<open>The arguments of \<open>createMessageEvent\<close>.\<close>

record message_event =
  ev_type :: jsstring
  ev_data :: jsstring
  ev_origin :: jsstring
  ev_lastEventId :: jsstring

text \<open>
  The closures handed to \<open>queue\<close>: the one of \<open>announceConnection\<close>, the one of
  \<open>reestablishConnection\<close>, the one its timer queues, the one of \<open>failConnection\<close>
  and the one of \<open>dispatchMessage\<close>.
\<close>

datatype task =
    TAnnounce
  | TReestablish
  | TReconnect
  | TFail
  | TMessage message_event

text \<open>What \<open>source.dispatchEvent\<close> hands to the consumer.\<close>

datatype notification = NOpen | NError | NMessage message_event

section \<open>The stream parser\<close>

text \<open>
  The parser works on the slots, the parsing state and the list of tasks it has handed
  to \<open>queue\<close>.
\<close>

type_synonym pstate = "slots \<times> parse_state \<times> task list"

text \<open>\<open>DIGITS = /^[0-9]+$/u\<close>.\<close>

definition DIGITS_test :: "jsstring \<Rightarrow> bool" where
  "DIGITS_test v = (v \<noteq> [] \<and> list_all (\<lambda>c. 0x30 \<le> c \<and> c \<le> 0x39) v)"

text \<open>
  \<open>parseInt(v, 10)\<close> on a string of decimal digits: the integer that the digits
  write, and the number for it, which is the nearest double.  (The language lets an
  implementation read the digits after the twentieth as zeros; the engines that run
  this program round the exact integer.)
\<close>

definition digitsValue :: "jsstring \<Rightarrow> nat" where
  "digitsValue v = foldl (\<lambda>a c. 10 * a + (unat c - 0x30)) 0 v"

definition parseInt :: "jsstring \<Rightarrow> jsnumber" where
  "parseInt v = roundDouble (real (digitsValue v))"

definition processField :: "jsstring \<Rightarrow> jsstring \<Rightarrow> pstate \<Rightarrow> pstate" where
  "processField fieldName fieldValue p =
     (case p of (sl, st, q) \<Rightarrow>
       (let name = toLowerCase fieldName in
        if name = js ''event'' then (sl, st\<lparr>st_type := fieldValue\<rparr>, q)
        else if name = js ''data'' then (sl, st\<lparr>st_data := st_data st @ fieldValue @ [LF]\<rparr>, q)
        else if name = js ''id'' then
          (if NUL \<notin> set fieldValue then (sl, st\<lparr>st_lastEventId := Some fieldValue\<rparr>, q)
           else (sl, st, q))
        else if name = js ''retry'' then
          (if DIGITS_test fieldValue
           then (sl\<lparr>reconnectionTime := parseInt fieldValue\<rparr>, st, q)
           else (sl, st, q))
        else (sl, st, q)))"

definition dispatchMessage :: "pstate \<Rightarrow> pstate" where
  "dispatchMessage p =
     (case p of (sl, st, q) \<Rightarrow>
       (let data = st_data st; type = st_type st; lastEventId' = st_lastEventId st;
            st1 = st\<lparr>st_data := [], st_type := []\<rparr>;
            sl1 = (case lastEventId' of None \<Rightarrow> sl | Some i \<Rightarrow> sl\<lparr>lastEventId := i\<rparr>)
        in if data = [] then (sl1, st1, q)
           else (sl1, st1,
                 q @ [TMessage \<lparr>ev_type = (if type = [] then js ''message'' else type),
                                 ev_data = butlast data,
                                 ev_origin = st_origin st,
                                 ev_lastEventId = lastEventId sl1\<rparr>])))"

text \<open>The body of the loop of \<open>parseStream\<close> for one matched line.\<close>

definition processLine :: "jsstring \<Rightarrow> pstate \<Rightarrow> pstate" where
  "processLine line p =
     (let colonPos = indexOf line COLON in
      if line = [] then dispatchMessage p
      else if colonPos = -1 then processField line [] p
      else if colonPos \<ge> 1 then
        (let k = nat colonPos;
             name = take k line;
             val = drop (k + (if k + 1 < length line \<and> line ! (k + 1) = SPACE then 2 else 1)) line
         in processField name val p)
      else p)"

text \<open>
  \<open>LINE = /([^\r\n]*)(?:\r\n|[\r\n])/gu\<close>: \<open>LINE.exec(buffer)\<close> with
  \<open>LINE.lastIndex = lastIndex\<close>.  The search starts at \<open>lastIndex\<close>; the first group
  runs up to the next CR or LF, and there is no match when none follows.  The result
  is the first group and the new \<open>lastIndex\<close>.
\<close>

definition LINE_exec :: "jsstring \<Rightarrow> nat \<Rightarrow> (jsstring \<times> nat) option" where
  "LINE_exec buffer lastIndex =
     (if lastIndex > length buffer then None
      else
        (let line = takeWhile (\<lambda>c. c \<noteq> CR \<and> c \<noteq> LF) (drop lastIndex buffer);
             i = lastIndex + length line
         in if i \<ge> length buffer then None
            else if buffer ! i = CR \<and> i + 1 < length buffer \<and> buffer ! (i + 1) = LF
                 then Some (line, i + 2)
                 else Some (line, i + 1)))"

function parseStream_loop :: "jsstring \<Rightarrow> nat \<Rightarrow> pstate \<Rightarrow> pstate" where
  "parseStream_loop buffer lastIndex p =
     (case LINE_exec buffer lastIndex of
        None \<Rightarrow> p
      | Some (line, lastIndex') \<Rightarrow>
          (case p of (sl, st, q) \<Rightarrow>
             parseStream_loop buffer lastIndex'
               (processLine line (sl, st\<lparr>st_pos := lastIndex'\<rparr>, q))))"
  by pat_completeness auto
termination
  by (relation "measure (\<lambda>(buffer, lastIndex, p). length buffer - lastIndex)")
     (auto simp: LINE_exec_def Let_def split: if_splits)

declare parseStream_loop.simps [simp del]

definition parseStream :: "jsstring \<Rightarrow> pstate \<Rightarrow> pstate" where
  "parseStream buffer p =
     (case p of (sl, st, q) \<Rightarrow> parseStream_loop buffer (st_pos st) p)"

section \<open>The connection manager\<close>

text \<open>
  What \<open>createConnection\<close> creates for one request: the parsing state \<open>state\<close>, the
  flag \<open>first\<close>, and the \<open>Last-Event-ID\<close> header it sends (if any).
\<close>

record xhr =
  xhr_state :: parse_state
  xhr_first :: bool
  xhr_lastEventId :: "jsstring option"

text \<open>
  The event source and its environment: \<open>window.navigator.onLine\<close>, the number of
  registered \<open>online\<close> listeners, the requests created so far, the internal slots, the
  closures handed to \<open>queue\<close> and not yet run, the delays of the pending timers, the
  events dispatched to the consumer, and the module's settings.
\<close>

record world =
  onLine :: bool
  onlineListeners :: nat
  requests :: "xhr list"
  slots :: slots
  microtasks :: "task list"
  timers :: "jsnumber list"
  delivered :: "notification list"
  reconnectionTimeIncreasingRate :: jsnumber
  maxBufferSize :: jsnumber

definition queue :: "task \<Rightarrow> world \<Rightarrow> world" where
  "queue t w = w\<lparr>microtasks := microtasks w @ [t]\<rparr>"

definition dispatchEvent :: "notification \<Rightarrow> world \<Rightarrow> world" where
  "dispatchEvent n w = w\<lparr>delivered := delivered w @ [n]\<rparr>"

text \<open>The object \<open>state\<close> that \<open>createConnection\<close> starts a request with.\<close>

definition initialState :: parse_state where
  "initialState =
     \<lparr>st_origin = [], st_data = [], st_type = [], st_lastEventId = None, st_pos = 0\<rparr>"

definition createConnection :: "world \<Rightarrow> world" where
  "createConnection w =
     (if \<not> onLine w then w\<lparr>onlineListeners := onlineListeners w + 1\<rparr>
      else
        (let r = \<lparr>xhr_state = initialState, xhr_first = True,
                   xhr_lastEventId =
                     (if lastEventId (slots w) \<noteq> [] then Some (lastEventId (slots w))
                      else None)\<rparr>
         in w\<lparr>slots := (slots w)\<lparr>request := Some (length (requests w))\<rparr>,
               requests := requests w @ [r]\<rparr>))"

text \<open>The handler \<open>request.onabort\<close>.\<close>

definition onabort :: "world \<Rightarrow> world" where
  "onabort w =
     (if readyState (slots w) \<noteq> CLOSED
      then createConnection (w\<lparr>slots := (slots w)\<lparr>request := None\<rparr>\<rparr>)
      else w)"

text \<open>
  \<open>request.abort()\<close>: the transport fires the abort event before the call returns.
  Both calls in the program are on a request that is in flight.
\<close>

definition abort :: "nat \<Rightarrow> world \<Rightarrow> world" where
  "abort rid w = onabort w"

definition close :: "world \<Rightarrow> world" where
  "close w =
     (let request' = request (slots w);
          w1 = w\<lparr>slots := (slots w)\<lparr>readyState := CLOSED, request := None\<rparr>\<rparr>
      in case request' of None \<Rightarrow> w1 | Some rid \<Rightarrow> abort rid w1)"

definition announceConnection :: "world \<Rightarrow> world" where
  "announceConnection w =
     (let w1 = queue TAnnounce w
      in w1\<lparr>slots := (slots w1)\<lparr>additionalReconnectionTime := Finite 0\<rparr>\<rparr>)"

definition reestablishConnection :: "world \<Rightarrow> world" where
  "reestablishConnection w =
     (let w1 = queue TReestablish w;
          delay = jsadd (reconnectionTime (slots w1)) (additionalReconnectionTime (slots w1));
          w2 = w1\<lparr>timers := timers w1 @ [delay]\<rparr>
      in w2\<lparr>slots := (slots w2)\<lparr>additionalReconnectionTime :=
            jssub
              (jsmul (reconnectionTimeIncreasingRate w2)
                 (jsadd (reconnectionTime (slots w2))
                    (additionalReconnectionTime (slots w2))))
              (reconnectionTime (slots w2))\<rparr>\<rparr>)"

definition failConnection :: "world \<Rightarrow> world" where
  "failConnection w = queue TFail w"

text \<open>Running one closure that was handed to \<open>queue\<close>.\<close>

fun runTask :: "task \<Rightarrow> world \<Rightarrow> world" where
  "runTask TAnnounce w =
     (if readyState (slots w) \<noteq> CLOSED
      then dispatchEvent NOpen (w\<lparr>slots := (slots w)\<lparr>readyState := OPEN\<rparr>\<rparr>)
      else w)"
| "runTask TReestablish w =
     (if readyState (slots w) \<noteq> CLOSED
      then dispatchEvent NError (w\<lparr>slots := (slots w)\<lparr>readyState := CONNECTING\<rparr>\<rparr>)
      else w)"
| "runTask TReconnect w =
     (if readyState (slots w) = CONNECTING then createConnection w else w)"
| "runTask TFail w =
     (if readyState (slots w) \<noteq> CLOSED then dispatchEvent NError (close w) else w)"
| "runTask (TMessage e) w =
     (if readyState (slots w) \<noteq> CLOSED then dispatchEvent (NMessage e) w else w)"

text \<open>
  \<open>request.onprogress\<close> in three parts: the call of \<open>parseStream\<close>, the check of
  the buffer size, and the handler itself.  The handler's arguments are what it reads
  from the request: \<open>status\<close>, the \<open>Content-Type\<close> header, the origin string that the
  URL parser gives for \<open>responseURL\<close> (or for the request URL), and \<open>responseText\<close>.
\<close>

definition handleEvents :: "nat \<Rightarrow> jsstring \<Rightarrow> world \<Rightarrow> world" where
  "handleEvents rid responseText w =
     (case parseStream responseText (slots w, xhr_state (requests w ! rid), microtasks w) of
        (sl, st, q) \<Rightarrow>
          w\<lparr>slots := sl,
            requests := (requests w)[rid := (requests w ! rid)\<lparr>xhr_state := st\<rparr>],
            microtasks := q\<rparr>)"

definition bufferGuard :: "nat \<Rightarrow> jsstring \<Rightarrow> world \<Rightarrow> world" where
  "bufferGuard rid responseText w =
     (if jsless (maxBufferSize w) (lengthNumber responseText) then abort rid w else w)"

definition validContentType :: "jsstring option \<Rightarrow> bool" where
  "validContentType contentType =
     (case contentType of
        None \<Rightarrow> False
      | Some t \<Rightarrow> startsWith (toLowerCase t) (js ''text/event-stream''))"

definition onprogress ::
    "nat \<Rightarrow> nat \<Rightarrow> jsstring option \<Rightarrow> jsstring \<Rightarrow> jsstring \<Rightarrow> world \<Rightarrow> world" where
  "onprogress rid status contentType origin responseText w =
     (if rid \<ge> length (requests w) then w
      else if readyState (slots w) = CLOSED \<or> status = 0 then w
      else if xhr_first (requests w ! rid) then
        (let w1 = w\<lparr>requests := (requests w)[rid := (requests w ! rid)\<lparr>xhr_first := False\<rparr>]\<rparr>
         in if status = 200 \<and> validContentType contentType then
              (let r = requests w1 ! rid;
                   w2 = w1\<lparr>requests := (requests w1)
                          [rid := r\<lparr>xhr_state := (xhr_state r)\<lparr>st_origin := origin\<rparr>\<rparr>]\<rparr>
               in bufferGuard rid responseText
                    (handleEvents rid responseText (announceConnection w2)))
            else failConnection w1)
      else bufferGuard rid responseText (handleEvents rid responseText w))"

definition onload :: "nat \<Rightarrow> nat \<Rightarrow> world \<Rightarrow> world" where
  "onload rid status w =
     (if rid \<ge> length (requests w) then w
      else if readyState (slots w) = CLOSED \<or> status = 0 then w
      else
        (let w1 = w\<lparr>slots := (slots w)\<lparr>request := None\<rparr>\<rparr>;
             w2 = (if status = 200 then reestablishConnection w1 else w1)
         in if status = 204 \<and> xhr_first (requests w2 ! rid) then failConnection w2 else w2))"

definition onerror :: "world \<Rightarrow> world" where
  "onerror w =
     (if readyState (slots w) \<noteq> CLOSED
      then reestablishConnection (w\<lparr>slots := (slots w)\<lparr>request := None\<rparr>\<rparr>)
      else w)"

text \<open>The callback of the timer that \<open>reestablishConnection\<close> sets.\<close>

definition fireTimer :: "nat \<Rightarrow> world \<Rightarrow> world" where
  "fireTimer i w =
     (if i < length (timers w)
      then queue TReconnect (w\<lparr>timers := take i (timers w) @ drop (Suc i) (timers w)\<rparr>)
      else w)"

text \<open>
  The \<open>online\<close> listener of \<open>createConnection\<close> (after it has removed itself), and the
  \<open>online\<close> event, which calls every listener registered before the event.
\<close>

definition onlineListener :: "world \<Rightarrow> world" where
  "onlineListener w = (if readyState (slots w) \<noteq> CLOSED then createConnection w else w)"

definition onlineEvent :: "world \<Rightarrow> world" where
  "onlineEvent w = (onlineListener ^^ onlineListeners w) (w\<lparr>onlineListeners := 0\<rparr>)"

definition runNextTask :: "world \<Rightarrow> world" where
  "runNextTask w =
     (case microtasks w of [] \<Rightarrow> w | t # ts \<Rightarrow> runTask t (w\<lparr>microtasks := ts\<rparr>))"

text \<open>
  Everything that can happen to an event source: the consumer calls \<open>close()\<close>, the
  transport calls a handler of a request, the next queued closure runs, a timer fires,
  the \<open>online\<close> event is dispatched, or the network availability changes.
\<close>

datatype action =
    Close
  | Progress nat nat "jsstring option" jsstring jsstring
  | Load nat nat
  | Error nat
  | Abort nat
  | RunTask
  | Timer nat
  | Online
  | SetOnLine bool

fun step :: "action \<Rightarrow> world \<Rightarrow> world" where
  "step Close w = close w"
| "step (Progress rid status contentType origin responseText) w =
     onprogress rid status contentType origin responseText w"
| "step (Load rid status) w = onload rid status w"
| "step (Error rid) w = (if rid < length (requests w) then onerror w else w)"
| "step (Abort rid) w = (if rid < length (requests w) then onabort w else w)"
| "step RunTask w = runNextTask w"
| "step (Timer i) w = fireTimer i w"
| "step Online w = onlineEvent w"
| "step (SetOnLine b) w = w\<lparr>onLine := b\<rparr>"

definition run :: "action list \<Rightarrow> world \<Rightarrow> world" where
  "run es w = fold step es w"

text \<open>
  The constructor: \<open>internalSlots.init\<close> (the slots of a new event source) and
  the first \<open>createConnection\<close>.  Its
  arguments are the environment: the network availability and the module's settings
  \<open>defaultReconnectionTime\<close>, \<open>reconnectionTimeIncreasingRate\<close> and \<open>maxBufferSize\<close>.
\<close>

definition initialSlots :: "jsnumber \<Rightarrow> slots" where
  "initialSlots defaultReconnectionTime =
     \<lparr>request = None, reconnectionTime = defaultReconnectionTime, lastEventId = [],
      readyState = CONNECTING, additionalReconnectionTime = Finite 0\<rparr>"

definition newEventSource ::
    "bool \<Rightarrow> jsnumber \<Rightarrow> jsnumber \<Rightarrow> jsnumber \<Rightarrow> world" where
  "newEventSource online defaultReconnectionTime rate maxBuffer =
     createConnection
       \<lparr>onLine = online, onlineListeners = 0, requests = [],
        slots = initialSlots defaultReconnectionTime,
        microtasks = [], timers = [], delivered = [],
        reconnectionTimeIncreasingRate = rate, maxBufferSize = maxBuffer\<rparr>"

section \<open>Predicates used in the statements and proofs\<close>

fun isMessage :: "task \<Rightarrow> bool" where
  "isMessage (TMessage e) = True"
| "isMessage t = False"


text \<open>The parser leaves the connection fields of the slots alone.\<close>

definition sameConn :: "slots \<Rightarrow> slots \<Rightarrow> bool" where
  "sameConn a b =
     (readyState a = readyState b \<and>
      additionalReconnectionTime a = additionalReconnectionTime b \<and>
      request a = request b)"

text \<open>
  From \<open>p\<close> to \<open>p'\<close> the parser has kept the connection fields and the origin, and has
  only queued message tasks.
\<close>

definition pframe :: "pstate \<Rightarrow> pstate \<Rightarrow> bool" where
  "pframe p p' =
     (case p of (sl, st, q) \<Rightarrow> case p' of (sl', st', q') \<Rightarrow>
        sameConn sl sl' \<and> st_origin st' = st_origin st \<and>
        take (length q) q' = q \<and> list_all isMessage (drop (length q) q'))"




text \<open>
  An event block as the parser sees it: the calls of \<open>processField\<close> for its field
  lines, in order, and then \<open>dispatchMessage\<close> for the blank line.
\<close>

definition processFields :: "(jsstring \<times> jsstring) list \<Rightarrow> pstate \<Rightarrow> pstate" where
  "processFields fs p = fold (\<lambda>(n, v). processField n v) fs p"

definition eventBlock :: "(jsstring \<times> jsstring) list \<Rightarrow> pstate \<Rightarrow> pstate" where
  "eventBlock fs p = dispatchMessage (processFields fs p)"

text \<open>The values of the fields of a block whose name is \<open>name\<close>, whatever the case.\<close>

definition fieldValues :: "string \<Rightarrow> (jsstring \<times> jsstring) list \<Rightarrow> jsstring list" where
  "fieldValues name fs = map snd (filter (\<lambda>(n, v). toLowerCase n = js name) fs)"

text \<open>The values joined by a newline, and the values each followed by a newline.\<close>

fun joinLF :: "jsstring list \<Rightarrow> jsstring" where
  "joinLF [] = []"
| "joinLF [v] = v"
| "joinLF (v # w # vs) = v @ LF # joinLF (w # vs)"

definition accumulated :: "jsstring list \<Rightarrow> jsstring" where
  "accumulated ds = concat (map (\<lambda>v. v @ [LF]) ds)"

text \<open>
  The line \<open>name: value\<close> of a field, the text of a block (its field lines and the
  blank line, each ended by LF), and the fields that can be written so: the name is
  not empty and has no colon, and neither part has a CR or LF.
\<close>

definition fieldLine :: "jsstring \<times> jsstring \<Rightarrow> jsstring" where
  "fieldLine f = (case f of (n, v) \<Rightarrow> n @ COLON # SPACE # v)"

definition blockText :: "(jsstring \<times> jsstring) list \<Rightarrow> jsstring" where
  "blockText fs = concat (map (\<lambda>f. fieldLine f @ [LF]) fs) @ [LF]"

definition wellFormedField :: "jsstring \<times> jsstring \<Rightarrow> bool" where
  "wellFormedField f =
     (case f of (n, v) \<Rightarrow>
        n \<noteq> [] \<and> list_all (\<lambda>c. c \<noteq> COLON \<and> c \<noteq> CR \<and> c \<noteq> LF) n \<and>
        list_all (\<lambda>c. c \<noteq> CR \<and> c \<noteq> LF) v)"

text \<open>
  Successive calls of \<open>parseStream\<close>, one for each \<open>responseText\<close> of a request; the
  same result with the cursor moved by \<open>k\<close>; and a text that begins with CR or LF.
\<close>

definition feed :: "jsstring list \<Rightarrow> pstate \<Rightarrow> pstate" where
  "feed texts p = fold parseStream texts p"

definition posShift :: "nat \<Rightarrow> pstate \<Rightarrow> pstate" where
  "posShift k p = (case p of (sl, st, q) \<Rightarrow> (sl, st\<lparr>st_pos := k + st_pos st\<rparr>, q))"

definition startsWithTerminator :: "jsstring \<Rightarrow> bool" where
  "startsWithTerminator b = (case b of [] \<Rightarrow> False | c # cs \<Rightarrow> c = CR \<or> c = LF)"


text \<open>
  The text \<open>a\<close> ends in the CR, and the text \<open>b\<close> that follows it begins with the
  LF, of one CRLF.
\<close>

definition splitsCRLF :: "jsstring \<Rightarrow> jsstring \<Rightarrow> bool" where
  "splitsCRLF a b = (a \<noteq> [] \<and> last a = CR \<and> b \<noteq> [] \<and> hd b = LF)"

section \<open>Rounding to the nearest double\<close>

text \<open>
  The definitions compute: \<open>ilog2\<close> is the binary exponent; a real of at least
  \<open>2^1024\<close> rounds to infinity; every \<open>m * 2^e\<close> with \<open>m < 2^53\<close> and
  \<open>-1074 \<le> e \<le> 971\<close>, that is every double, is left as it is; and the result is
  within half a unit of the last digit.
\<close>

lemma bitlen_0: "bitlen 0 = 0"
  by (simp add: bitlen.simps)

lemma bitlen_numeral: "bitlen (numeral k) = Suc (bitlen (numeral k div 2))"
  by (simp add: bitlen.simps)

lemma bitlen_Suc_0: "bitlen (Suc 0) = 1"
  by (simp add: bitlen.simps)

lemmas num_eval = roundDouble_def ilog2_def pow2_def roundHalfEven_def Let_def
  bitlen_0 bitlen_numeral bitlen_Suc_0

lemma bitlen_bounds: "0 < n \<Longrightarrow> 2 ^ (bitlen n - 1) \<le> n \<and> n < 2 ^ bitlen n"
proof (induction n rule: bitlen.induct)
  case (1 n)
  show ?case
  proof (cases "n div 2 = 0")
    case True
    with "1.prems" have "n = 1" by (cases n) auto
    then show ?thesis by (simp add: bitlen_Suc_0)
  next
    case False
    then have h: "2 ^ (bitlen (n div 2) - 1) \<le> n div 2 \<and> n div 2 < 2 ^ bitlen (n div 2)"
      using "1.IH" "1.prems" by simp
    have b: "bitlen n = Suc (bitlen (n div 2))"
      using "1.prems" by (simp add: bitlen.simps [of n])
    have p: "0 < bitlen (n div 2)" using False by (simp add: bitlen.simps [of "n div 2"])
    then obtain k where k: "bitlen (n div 2) = Suc k" by (cases "bitlen (n div 2)") auto
    from h show ?thesis unfolding b k by (simp; linarith)
  qed
qed

lemma ilog2_bounds:
  assumes "0 < x"
  shows "pow2 (ilog2 x) \<le> x \<and> x < pow2 (ilog2 x + 1)"
proof (cases "1 \<le> x")
  case True
  define n where "n = nat \<lfloor>x\<rfloor>"
  have n: "0 < n" "real n \<le> x" "x < real n + 1"
    using True by (simp_all add: n_def; linarith)+
  from bitlen_bounds [OF n(1)] have b: "2 ^ (bitlen n - 1) \<le> n" "n < 2 ^ bitlen n" by simp_all
  have p: "0 < bitlen n" using n(1) by (simp add: bitlen.simps [of n])
  have l: "ilog2 x = int (bitlen n) - 1" using True by (simp add: ilog2_def n_def)
  have 1: "pow2 (int (bitlen n) - 1) = 2 ^ (bitlen n - 1)"
    using p by (simp add: pow2_def nat_diff_distrib')
  have 2: "pow2 (int (bitlen n) - 1 + 1) = 2 ^ bitlen n"
    by (simp add: pow2_def)
  have "(2::real) ^ (bitlen n - 1) \<le> real n"
    using of_nat_mono [OF b(1), where 'a = real] by simp
  moreover have "Suc n \<le> 2 ^ bitlen n" using b(2) by simp
  then have "real n + 1 \<le> 2 ^ bitlen n"
    using of_nat_mono [of "Suc n" "2 ^ bitlen n", where 'a = real] by simp
  ultimately show ?thesis using n unfolding l 1 2 by linarith
next
  case False
  define y where "y = 1 / x"
  define n where "n = nat (\<lceil>y\<rceil> - 1)"
  have y: "1 < y" using assms False by (simp add: y_def)
  have c: "real_of_int (\<lceil>y\<rceil> - 1) < y" "y \<le> real_of_int \<lceil>y\<rceil>" by linarith+
  have "1 \<le> \<lceil>y\<rceil> - 1" using y by linarith
  then have n: "0 < n" "real n < y" "y \<le> real n + 1"
    using c by (simp_all add: n_def)
  from bitlen_bounds [OF n(1)] have b: "2 ^ (bitlen n - 1) \<le> n" "n < 2 ^ bitlen n" by simp_all
  have p: "0 < bitlen n" using n(1) by (simp add: bitlen.simps [of n])
  have l: "ilog2 x = - int (bitlen n)" using False by (simp add: ilog2_def n_def y_def)
  have 1: "pow2 (- int (bitlen n)) = 1 / 2 ^ bitlen n"
    using p by (simp add: pow2_def)
  have 2: "pow2 (- int (bitlen n) + 1) = 1 / 2 ^ (bitlen n - 1)"
    using p by (auto simp: pow2_def nat_diff_distrib' nat_add_distrib) 
  have "(2::real) ^ (bitlen n - 1) \<le> real n"
    using of_nat_mono [OF b(1), where 'a = real] by simp
  then have lo: "(2::real) ^ (bitlen n - 1) < y" using n(2) by linarith
  have "Suc n \<le> 2 ^ bitlen n" using b(2) by simp
  then have "real n + 1 \<le> 2 ^ bitlen n"
    using of_nat_mono [of "Suc n" "2 ^ bitlen n", where 'a = real] by simp
  then have hi: "y \<le> 2 ^ bitlen n" using n(3) by linarith
  have x: "1 / y = x" using assms by (simp add: y_def)
  have "1 / 2 ^ bitlen n \<le> 1 / y"
    using hi y by (intro divide_left_mono) simp_all
  moreover have "1 / y < 1 / 2 ^ (bitlen n - 1)"
    using lo y by (intro divide_strict_left_mono) simp_all
  ultimately have "1 / 2 ^ bitlen n \<le> x \<and> x < 1 / 2 ^ (bitlen n - 1)"
    unfolding x by simp
  then show ?thesis by (simp only: l 1 2)
qed

lemma pow2_powr: "pow2 e = 2 powr real_of_int e"
proof (cases "0 \<le> e")
  case True
  then have "real_of_int e = real (nat e)" by simp
  then show ?thesis using True by (simp add: pow2_def powr_realpow del: of_nat_nat)
next
  case False
  then have "real_of_int e = - real (nat (- e))" by simp
  then show ?thesis using False
    by (simp add: pow2_def powr_minus_divide powr_realpow del: of_nat_nat)
qed

lemma pow2_pos: "0 < pow2 e"
  by (simp add: pow2_powr)

lemma pow2_add: "pow2 (a + b) = pow2 a * pow2 b"
  by (simp add: pow2_powr powr_add)

lemma pow2_le_iff: "(pow2 a \<le> pow2 b) = (a \<le> b)"
  by (simp add: pow2_powr)

lemma pow2_less_iff: "(pow2 a < pow2 b) = (a < b)"
  by (simp add: pow2_powr)

lemma pow2_nonneg_int: "0 \<le> d \<Longrightarrow> pow2 d = real_of_int (2 ^ nat d)"
  by (simp add: pow2_def)

lemma roundHalfEven_int: "roundHalfEven (real_of_int n) = n"
  by (simp add: roundHalfEven_def)

lemma roundHalfEven_near: "\<bar>real_of_int (roundHalfEven y) - y\<bar> \<le> 1 / 2"
  unfolding roundHalfEven_def Let_def by (auto; linarith)

lemma roundDouble_overflow:
  assumes "pow2 1024 \<le> x"
  shows "roundDouble x = PosInf"
proof -
  have x: "0 < x" using assms pow2_pos [of 1024] by linarith
  define k where "k = ilog2 x"
  have b: "pow2 k \<le> x" "x < pow2 (k + 1)"
    using ilog2_bounds [OF x] by (simp_all add: k_def)
  have "pow2 1024 < pow2 (k + 1)" using assms b(2) by linarith
  then have k: "1024 \<le> k" by (simp add: pow2_less_iff)
  define e where "e = k - 52"
  have e: "max (ilog2 \<bar>x\<bar> - 52) (- 1074) = e" using k x by (simp add: e_def k_def)
  define m where "m = roundHalfEven (x / pow2 e)"
  have "pow2 k = pow2 e * pow2 52" using pow2_add [of e 52] by (simp add: e_def)
  then have "pow2 52 \<le> x / pow2 e"
    using b(1) pow2_pos [of e] by (simp add: pos_le_divide_eq mult.commute)
  moreover have "x / pow2 e - 1 / 2 \<le> real_of_int m"
    using roundHalfEven_near [of "x / pow2 e"] unfolding m_def by linarith
  ultimately have "pow2 52 - 1 / 2 \<le> real_of_int m" by linarith
  then have "real_of_int (2 ^ 52) - 1 / 2 \<le> real_of_int m" by (simp add: pow2_def)
  then have "(2 ^ 52 :: int) \<le> m" by linarith
  then have "pow2 52 \<le> real_of_int m" by (simp add: pow2_def)
  then have "pow2 52 * pow2 e \<le> real_of_int m * pow2 e"
    using pow2_pos [of e] by (simp add: mult_right_mono)
  moreover have "pow2 52 * pow2 e = pow2 k" using pow2_add [of 52 e] by (simp add: e_def)
  moreover have "pow2 1024 \<le> pow2 k" using k by (simp add: pow2_le_iff)
  ultimately have "pow2 1024 \<le> real_of_int m * pow2 e" by linarith
  then show ?thesis
    using x e by (simp add: roundDouble_def Let_def m_def)
qed

lemma roundDouble_double:
  assumes "0 < m" and "m < 2 ^ 53" and "- 1074 \<le> e" and "e \<le> 971"
  shows "roundDouble (real_of_int m * pow2 e) = Finite (real_of_int m * pow2 e)"
proof -
  define x where "x = real_of_int m * pow2 e"
  have x: "0 < x" using assms(1) pow2_pos [of e] by (simp add: x_def)
  define k where "k = ilog2 x"
  have b: "pow2 k \<le> x" "x < pow2 (k + 1)"
    using ilog2_bounds [OF x] by (simp_all add: k_def)
  have m53: "real_of_int m < pow2 53"
    using assms(2) by (simp add: pow2_def)
  then have "x < pow2 53 * pow2 e"
    unfolding x_def using pow2_pos [of e] by (simp add: mult_strict_right_mono)
  then have xl: "x < pow2 (53 + e)" by (simp add: pow2_add)
  then have "pow2 k < pow2 (53 + e)" using b(1) by linarith
  then have ke: "k - 52 \<le> e" by (simp add: pow2_less_iff)
  define E where "E = max (k - 52) (- 1074)"
  have E: "E \<le> e" using ke assms(3) by (simp add: E_def)
  define n where "n = m * 2 ^ nat (e - E)"
  have "pow2 e = pow2 (e - E) * pow2 E" using pow2_add [of "e - E" E] by simp
  then have "x / pow2 E = real_of_int m * pow2 (e - E)"
    using pow2_pos [of E] by (simp add: x_def)
  also have "\<dots> = real_of_int n"
    using E by (simp add: n_def pow2_nonneg_int)
  finally have q: "x / pow2 E = real_of_int n" .
  then have y: "real_of_int n * pow2 E = x"
    using pow2_pos [of E] by (simp add: field_simps)
  have "pow2 (53 + e) \<le> pow2 1024" using assms(4) by (simp add: pow2_le_iff)
  then have nov: "\<not> pow2 1024 \<le> x" using xl by linarith
  show ?thesis
    unfolding x_def [symmetric]
    using x nov by (simp add: roundDouble_def Let_def k_def [symmetric] E_def [symmetric]
        q roundHalfEven_int y)
qed

lemma roundDouble_minus: "roundDouble (- x) = jsneg (roundDouble x)"
  by (simp add: roundDouble_def Let_def)

lemma roundDouble_error:
  assumes "0 < x" and "roundDouble x = Finite y"
  shows "\<bar>y - x\<bar> \<le> pow2 (max (ilog2 x - 52) (- 1074)) / 2"
proof -
  define E where "E = max (ilog2 x - 52) (- 1074)"
  define m where "m = roundHalfEven (x / pow2 E)"
  have y: "y = real_of_int m * pow2 E"
    using assms by (simp add: roundDouble_def Let_def E_def m_def split: if_splits)
  have "\<bar>real_of_int m - x / pow2 E\<bar> * pow2 E \<le> 1 / 2 * pow2 E"
    using roundHalfEven_near [of "x / pow2 E"] pow2_pos [of E]
    unfolding m_def by (intro mult_right_mono) simp_all
  moreover have "\<bar>real_of_int m - x / pow2 E\<bar> * pow2 E = \<bar>real_of_int m * pow2 E - x\<bar>"
  proof -
    have "\<bar>real_of_int m - x / pow2 E\<bar> * pow2 E =
          \<bar>(real_of_int m - x / pow2 E) * pow2 E\<bar>"
      using pow2_pos [of E] by (simp add: abs_mult)
    also have "(real_of_int m - x / pow2 E) * pow2 E = real_of_int m * pow2 E - x"
      using pow2_pos [of E] by (simp add: left_diff_distrib)
    finally show ?thesis .
  qed
  ultimately show ?thesis by (simp add: y E_def)
qed

lemma roundDouble_examples:
  "jsadd (roundDouble (1/10)) (roundDouble (2/10)) = Finite (1351079888211149 / 4503599627370496)"
  "roundDouble 9007199254740993 = Finite 9007199254740992"
  "roundDouble 9007199254740995 = Finite 9007199254740996"
  "roundDouble (- (11/10)) = Finite (- (2476979795053773 / 2251799813685248))"
  by (simp_all add: num_eval)

lemma parseInt_rounds:
  "parseInt (js ''450'') = Finite 450"
  "parseInt (js ''9007199254740993'') = Finite 9007199254740992"
  by (simp_all add: parseInt_def digitsValue_def js_def num_eval)

section \<open>The parser touches only its own fields\<close>

lemma take_prefixD: "take (length q) q' = q \<Longrightarrow> q' = q @ drop (length q) q'"
  by (metis append_take_drop_id)

lemma pframe_refl: "pframe p p"
  by (auto simp: pframe_def sameConn_def split: prod.splits)

lemma pframe_trans:
  assumes "pframe p p'" and "pframe p' p''"
  shows "pframe p p''"
proof -
  obtain sl st q where p: "p = (sl, st, q)" by (cases p)
  obtain sl' st' q' where p': "p' = (sl', st', q')" by (cases p')
  obtain sl'' st'' q'' where p'': "p'' = (sl'', st'', q'')" by (cases p'')
  define ms where "ms = drop (length q) q'"
  define ns where "ns = drop (length q') q''"
  have q': "q' = q @ ms" and ms: "list_all isMessage ms"
    using assms(1) take_prefixD [of q q'] unfolding p p' pframe_def ms_def by simp_all
  have q'': "q'' = q' @ ns" and ns: "list_all isMessage ns"
    using assms(2) take_prefixD [of q' q''] unfolding p' p'' pframe_def ns_def by simp_all
  show ?thesis
    using assms ms ns unfolding p p' p'' pframe_def sameConn_def q' q'' by simp
qed

lemma processField_frame: "pframe p (processField n v p)"
  by (auto simp: pframe_def sameConn_def processField_def Let_def split: prod.splits)

lemma dispatchMessage_frame: "pframe p (dispatchMessage p)"
  by (auto simp: pframe_def sameConn_def dispatchMessage_def Let_def
           split: prod.splits option.splits if_splits)

lemma processLine_frame: "pframe p (processLine l p)"
  by (simp add: processLine_def Let_def processField_frame dispatchMessage_frame pframe_refl)

lemma pos_frame: "pframe (sl, st, q) (sl, st\<lparr>st_pos := i\<rparr>, q)"
  by (simp add: pframe_def sameConn_def)

lemma parseStream_loop_frame: "pframe p (parseStream_loop b i p)"
proof (induction b i p rule: parseStream_loop.induct)
  case (1 buffer lastIndex p)
  show ?case
  proof (cases "LINE_exec buffer lastIndex")
    case None
    then show ?thesis
      by (simp add: pframe_refl parseStream_loop.simps [of buffer lastIndex])
  next
    case (Some a)
    obtain line j where a: "a = (line, j)" by (cases a)
    obtain sl st q where p: "p = (sl, st, q)" by (cases p)
    have "pframe (processLine line (sl, st\<lparr>st_pos := j\<rparr>, q))
            (parseStream_loop buffer j (processLine line (sl, st\<lparr>st_pos := j\<rparr>, q)))"
      using "1.IH" Some a p by simp
    moreover have "pframe p (processLine line (sl, st\<lparr>st_pos := j\<rparr>, q))"
      unfolding p using pframe_trans [OF pos_frame processLine_frame] .
    ultimately show ?thesis
      using Some a p pframe_trans
      by (simp add: parseStream_loop.simps [of buffer lastIndex])
  qed
qed

lemma parseStream_frame: "pframe p (parseStream b p)"
  by (cases p) (simp add: parseStream_def parseStream_loop_frame)

section \<open>What each operation leaves unchanged\<close>

lemma handleEvents_frame:
  "readyState (slots (handleEvents rid t w)) = readyState (slots w) \<and>
   additionalReconnectionTime (slots (handleEvents rid t w)) =
     additionalReconnectionTime (slots w) \<and>
   request (slots (handleEvents rid t w)) = request (slots w) \<and>
   delivered (handleEvents rid t w) = delivered w \<and>
   timers (handleEvents rid t w) = timers w \<and>
   length (requests (handleEvents rid t w)) = length (requests w) \<and>
   take (length (microtasks w)) (microtasks (handleEvents rid t w)) = microtasks w \<and>
   list_all isMessage (drop (length (microtasks w)) (microtasks (handleEvents rid t w)))"
proof -
  obtain sl st q where
    r: "parseStream t (slots w, xhr_state (requests w ! rid), microtasks w) = (sl, st, q)"
    by (cases "parseStream t (slots w, xhr_state (requests w ! rid), microtasks w)")
  have "pframe (slots w, xhr_state (requests w ! rid), microtasks w) (sl, st, q)"
    using parseStream_frame [of "(slots w, xhr_state (requests w ! rid), microtasks w)" t] r
    by simp
  then show ?thesis
    by (simp add: handleEvents_def r pframe_def sameConn_def)
qed


lemma onabort_frame:
  "readyState (slots (onabort w)) = readyState (slots w) \<and>
   additionalReconnectionTime (slots (onabort w)) = additionalReconnectionTime (slots w) \<and>
   delivered (onabort w) = delivered w \<and>
   microtasks (onabort w) = microtasks w \<and>
   timers (onabort w) = timers w"
  by (simp add: onabort_def createConnection_def Let_def)

lemma bufferGuard_frame:
  "readyState (slots (bufferGuard rid t w)) = readyState (slots w) \<and>
   additionalReconnectionTime (slots (bufferGuard rid t w)) =
     additionalReconnectionTime (slots w) \<and>
   delivered (bufferGuard rid t w) = delivered w \<and>
   microtasks (bufferGuard rid t w) = microtasks w \<and>
   timers (bufferGuard rid t w) = timers w"
  using onabort_frame [of w] by (simp add: bufferGuard_def abort_def)

lemma close_closed:
  "readyState (slots (close w)) = CLOSED \<and> delivered (close w) = delivered w \<and>
   microtasks (close w) = microtasks w \<and> requests (close w) = requests w \<and>
   timers (close w) = timers w"
  by (simp add: close_def abort_def onabort_def Let_def split: option.splits)

lemma onlineListener_closed:
  "readyState (slots w) = CLOSED \<Longrightarrow> (onlineListener ^^ n) w = w"
  by (induction n) (simp_all add: onlineListener_def)


lemma reestablishConnection_fields:
  "timers (reestablishConnection w) =
     timers w @ [jsadd (reconnectionTime (slots w)) (additionalReconnectionTime (slots w))] \<and>
   additionalReconnectionTime (slots (reestablishConnection w)) =
     jssub
       (jsmul (reconnectionTimeIncreasingRate w)
          (jsadd (reconnectionTime (slots w)) (additionalReconnectionTime (slots w))))
       (reconnectionTime (slots w)) \<and>
   reconnectionTime (slots (reestablishConnection w)) = reconnectionTime (slots w) \<and>
   reconnectionTimeIncreasingRate (reestablishConnection w) = reconnectionTimeIncreasingRate w"
  by (simp add: reestablishConnection_def queue_def Let_def)

section \<open>A closed connection stays closed and silent\<close>

lemma runTask_closed:
  "readyState (slots w) = CLOSED \<Longrightarrow>
   readyState (slots (runTask t w)) = CLOSED \<and> delivered (runTask t w) = delivered w \<and>
   requests (runTask t w) = requests w"
  by (cases t) simp_all

lemma step_closed:
  assumes "readyState (slots w) = CLOSED"
  shows "readyState (slots (step e w)) = CLOSED \<and> delivered (step e w) = delivered w \<and>
         requests (step e w) = requests w"
proof (cases e)
  case Close
  then show ?thesis using assms close_closed [of w] by simp
next
  case (Progress rid status ct origin t)
  then show ?thesis using assms by (simp add: onprogress_def)
next
  case (Load rid status)
  then show ?thesis using assms by (simp add: onload_def)
next
  case (Error rid)
  then show ?thesis using assms by (simp add: onerror_def)
next
  case (Abort rid)
  then show ?thesis using assms by (simp add: onabort_def)
next
  case RunTask
  show ?thesis
  proof (cases "microtasks w")
    case Nil
    then show ?thesis using assms RunTask by (simp add: runNextTask_def)
  next
    case (Cons t ts)
    then show ?thesis
      using assms RunTask runTask_closed [of "w\<lparr>microtasks := ts\<rparr>" t]
      by (simp add: runNextTask_def)
  qed
next
  case (Timer i)
  then show ?thesis using assms by (simp add: fireTimer_def queue_def)
next
  case Online
  then show ?thesis using assms by (simp add: onlineEvent_def onlineListener_closed)
next
  case (SetOnLine b)
  then show ?thesis using assms by simp
qed

lemma run_Nil: "run [] w = w"
  by (simp add: run_def)

lemma run_Cons: "run (e # es) w = run es (step e w)"
  by (simp add: run_def)

lemma run_closed:
  "readyState (slots w) = CLOSED \<Longrightarrow>
   readyState (slots (run es w)) = CLOSED \<and> delivered (run es w) = delivered w \<and>
   requests (run es w) = requests w"
proof (induction es arbitrary: w)
  case Nil
  then show ?case by (simp add: run_Nil)
next
  case (Cons e es)
  from step_closed [OF Cons.prems, of e] Cons.IH [of "step e w"]
  show ?case by (simp add: run_Cons)
qed

text \<open>
  C6: \<open>readyState\<close> is monotonic toward \<open>CLOSED\<close>.  Whatever happens (a call of
  \<open>close()\<close>, a transport callback, a queued task, a timer, the \<open>online\<close> event), in
  any state, \<open>readyState\<close> either stays or makes one of the four transitions
  CONNECTING to OPEN, OPEN to CONNECTING, CONNECTING to CLOSED, OPEN to CLOSED; and
  from \<open>CLOSED\<close> no sequence of such steps leads away.
\<close>

theorem readyState_monotonic:
  "(readyState (slots (step e w)) = readyState (slots w) \<or>
    (readyState (slots w), readyState (slots (step e w)))
      \<in> {(CONNECTING, OPEN), (OPEN, CONNECTING), (CONNECTING, CLOSED), (OPEN, CLOSED)}) \<and>
   (readyState (slots w) = CLOSED \<longrightarrow> readyState (slots (run es w)) = CLOSED)"
proof
  show "readyState (slots (step e w)) = readyState (slots w) \<or>
    (readyState (slots w), readyState (slots (step e w)))
      \<in> {(CONNECTING, OPEN), (OPEN, CONNECTING), (CONNECTING, CLOSED), (OPEN, CLOSED)}"
  proof (cases "readyState (slots w) = CLOSED")
    case True
    then show ?thesis using step_closed [of w e] by simp
  next
    case False
    then show ?thesis
      by (cases "readyState (slots w)"; cases "readyState (slots (step e w))") simp_all
  qed
  show "readyState (slots w) = CLOSED \<longrightarrow> readyState (slots (run es w)) = CLOSED"
    using run_closed by blast
qed

theorem readyState_monotonic_witness:
  "readyState (slots (close (newEventSource True (Finite 4000) (Finite (3/2)) (Finite 65536)))) = CLOSED \<and>
   readyState (slots (run [Timer 0, RunTask, Online, Load 0 200, RunTask]
     (close (newEventSource True (Finite 4000) (Finite (3/2)) (Finite 65536))))) = CLOSED"
proof -
  have h: "readyState (slots (close (newEventSource True (Finite 4000) (Finite (3/2)) (Finite 65536)))) = CLOSED"
    by (simp add: close_closed)
  show ?thesis
    using h readyState_monotonic
      [of Close "close (newEventSource True (Finite 4000) (Finite (3/2)) (Finite 65536))"
          "[Timer 0, RunTask, Online, Load 0 200, RunTask]"]
    by simp
qed

text \<open>
  C7: after \<open>close()\<close> nothing is delivered to the consumer any more, whatever was
  queued before the call and whatever happens after it: every queued task checks
  \<open>readyState\<close> when it runs and does nothing when it is \<open>CLOSED\<close>.
\<close>

theorem no_notification_after_close:
  "delivered (run es (close w)) = delivered w \<and>
   readyState (slots (run es (close w))) = CLOSED"
  using run_closed [of "close w" es] close_closed [of w] by simp

section \<open>Handlers only append to the queue\<close>









lemma onprogress_cases:
  "onprogress rid status ct origin t w =
     (if rid \<ge> length (requests w) then w
      else if readyState (slots w) = CLOSED \<or> status = 0 then w
      else if xhr_first (requests w ! rid) then
        (if status = 200 \<and> validContentType ct then
           bufferGuard rid t (handleEvents rid t (announceConnection
             (w\<lparr>requests := (requests w)[rid := (requests w ! rid)
                   \<lparr>xhr_first := False,
                    xhr_state := (xhr_state (requests w ! rid))\<lparr>st_origin := origin\<rparr>\<rparr>]\<rparr>)))
         else failConnection
           (w\<lparr>requests := (requests w)[rid := (requests w ! rid)\<lparr>xhr_first := False\<rparr>]\<rparr>))
      else bufferGuard rid t (handleEvents rid t w))"
  by (simp add: onprogress_def Let_def)







section \<open>A pending fail task shadows every later message\<close>









section \<open>The retry field\<close>

text \<open>
  C10: a \<open>retry\<close> field with an empty value changes nothing, in particular not the
  reconnection time: \<open>DIGITS\<close> needs at least one digit, so the lines \<open>retry:\<close>,
  \<open>retry: \<close> (whose value is empty once the space is stripped) and \<open>retry\<close> are
  ignored; no field with an empty value, whatever its name, changes the reconnection
  time.
\<close>

theorem empty_retry_ignored:
  "\<not> DIGITS_test [] \<and>
   processField (js ''retry'') [] p = p \<and>
   processLine (js ''retry:'') p = p \<and>
   processLine (js ''retry: '') p = p \<and>
   processLine (js ''retry'') p = p \<and>
   reconnectionTime (fst (processField n [] p)) = reconnectionTime (fst p)"
  by (cases p) (simp add: processLine_def processField_def js_def toLowerCase_def lowerUnit_def
        COLON_def SPACE_def DIGITS_test_def Let_def)

section \<open>The reconnection delay\<close>







text \<open>
  A \<open>retry\<close> value too large for a double makes the reconnection time infinite; the
  delays are then Infinity, NaN, NaN.
\<close>

lemma infinite_reconnection_time:
  assumes "reconnectionTime (slots w) = PosInf"
    and "reconnectionTimeIncreasingRate w = Finite (3/2)"
    and "additionalReconnectionTime (slots w) = Finite 0"
  shows "timers ((reestablishConnection ^^ 3) w) = timers w @ [PosInf, NaN, NaN]"
proof -
  define v1 where "v1 = reestablishConnection w"
  define v2 where "v2 = reestablishConnection v1"
  have 1: "timers v1 = timers w @ [PosInf]" "additionalReconnectionTime (slots v1) = NaN"
    "reconnectionTime (slots v1) = PosInf"
    "reconnectionTimeIncreasingRate v1 = Finite (3/2)"
    using reestablishConnection_fields [of w] by (simp_all add: v1_def assms jssub_def)
  have 2: "timers v2 = timers w @ [PosInf, NaN]" "additionalReconnectionTime (slots v2) = NaN"
    "reconnectionTime (slots v2) = PosInf"
    using reestablishConnection_fields [of v1] by (simp_all add: v2_def 1 jssub_def)
  have "(reestablishConnection ^^ 3) w = reestablishConnection v2"
    by (simp add: v1_def v2_def numeral_3_eq_3)
  then show ?thesis
    using reestablishConnection_fields [of v2] by (simp add: 2)
qed

section \<open>The buffer guard\<close>

text \<open>
  C8: the restart that the buffer check triggers (\<open>request.abort()\<close>, whose handler
  creates the next request at once) queues nothing, delivers nothing, sets no timer and
  leaves \<open>readyState\<close> and the additional reconnection time as they are; and the whole
  \<open>progress\<close> handler of a chunk after the first queues message tasks only.
\<close>

theorem buffer_guard_restart_silent:
  "readyState (slots (bufferGuard rid t w)) = readyState (slots w) \<and>
   additionalReconnectionTime (slots (bufferGuard rid t w)) = additionalReconnectionTime (slots w) \<and>
   delivered (bufferGuard rid t w) = delivered w \<and>
   microtasks (bufferGuard rid t w) = microtasks w \<and>
   timers (bufferGuard rid t w) = timers w \<and>
   (jsless (maxBufferSize w) (lengthNumber t) \<and> readyState (slots w) \<noteq> CLOSED \<and> onLine w \<longrightarrow>
      length (requests (bufferGuard rid t w)) = Suc (length (requests w)) \<and>
      request (slots (bufferGuard rid t w)) = Some (length (requests w))) \<and>
   (rid < length (requests w) \<and> \<not> xhr_first (requests w ! rid) \<longrightarrow>
      readyState (slots (onprogress rid status ct origin t w)) = readyState (slots w) \<and>
      additionalReconnectionTime (slots (onprogress rid status ct origin t w)) =
        additionalReconnectionTime (slots w) \<and>
      delivered (onprogress rid status ct origin t w) = delivered w \<and>
      timers (onprogress rid status ct origin t w) = timers w \<and>
      list_all isMessage
        (drop (length (microtasks w)) (microtasks (onprogress rid status ct origin t w))))"
  using bufferGuard_frame [of rid t w] bufferGuard_frame [of rid t "handleEvents rid t w"]
    handleEvents_frame [of rid t w]
  by (simp add: onprogress_cases)
     (simp add: bufferGuard_def abort_def onabort_def createConnection_def Let_def)

theorem buffer_guard_restart_silent_witness:
  "(let w = onprogress 0 200 (Some (js ''text/event-stream'')) [] []
              (newEventSource True (Finite 4000) (Finite (3/2)) (Finite 4));
        t = js ''data: x'' @ [LF, LF]
    in jsless (maxBufferSize w) (lengthNumber t) \<and> readyState (slots w) \<noteq> CLOSED \<and> onLine w \<and>
       0 < length (requests w) \<and> \<not> xhr_first (requests w ! 0) \<and>
       length (requests (bufferGuard 0 t w)) = 2 \<and>
       request (slots (bufferGuard 0 t w)) = Some 1 \<and>
       microtasks (bufferGuard 0 t w) = [TAnnounce] \<and>
       readyState (slots (onprogress 0 200 None [] t w)) = CONNECTING \<and>
       additionalReconnectionTime (slots (onprogress 0 200 None [] t w)) = Finite 0 \<and>
       delivered (onprogress 0 200 None [] t w) = [])"
proof -
  define w where "w = onprogress 0 200 (Some (js ''text/event-stream'')) [] []
              (newEventSource True (Finite 4000) (Finite (3/2)) (Finite 4))"
  define t where "t = js ''data: x'' @ [LF, LF]"
  have v: "validContentType (Some (js ''text/event-stream''))"
    by (simp add: validContentType_def js_def toLowerCase_def lowerUnit_def)
  have w: "w = \<lparr>onLine = True, onlineListeners = 0,
      requests = [\<lparr>xhr_state = \<lparr>st_origin = [], st_data = [], st_type = [],
                    st_lastEventId = None, st_pos = 0\<rparr>,
                  xhr_first = False, xhr_lastEventId = None\<rparr>],
      slots = \<lparr>request = Some 0, reconnectionTime = Finite 4000, lastEventId = [],
                readyState = CONNECTING, additionalReconnectionTime = Finite 0\<rparr>,
      microtasks = [TAnnounce], timers = [], delivered = [],
      reconnectionTimeIncreasingRate = Finite (3/2), maxBufferSize = Finite 4\<rparr>"
    unfolding w_def
    by (simp add: onprogress_cases v newEventSource_def initialSlots_def createConnection_def initialState_def Let_def
          announceConnection_def queue_def handleEvents_def bufferGuard_def lengthNumber_def
          parseStream_def parseStream_loop.simps [of "[]"] LINE_exec_def)
  have h: "jsless (maxBufferSize w) (lengthNumber t)" "readyState (slots w) \<noteq> CLOSED" "onLine w"
    "0 < length (requests w)" "\<not> xhr_first (requests w ! 0)"
    by (simp_all add: w t_def js_def lengthNumber_def)
  have "jsless (maxBufferSize w) (lengthNumber t) \<and> readyState (slots w) \<noteq> CLOSED \<and> onLine w \<and>
       0 < length (requests w) \<and> \<not> xhr_first (requests w ! 0) \<and>
       length (requests (bufferGuard 0 t w)) = 2 \<and>
       request (slots (bufferGuard 0 t w)) = Some 1 \<and>
       microtasks (bufferGuard 0 t w) = [TAnnounce] \<and>
       readyState (slots (onprogress 0 200 None [] t w)) = CONNECTING \<and>
       additionalReconnectionTime (slots (onprogress 0 200 None [] t w)) = Finite 0 \<and>
       delivered (onprogress 0 200 None [] t w) = []"
    using h buffer_guard_restart_silent [of 0 t w 200 None "[]"]
    by (simp add: w)
  then show ?thesis by (simp add: w_def t_def Let_def)
qed

section \<open>Moving the cursor\<close>

text \<open>
  The parser reads the text from the cursor on and nothing else of the cursor: a text
  with \<open>pre\<close> in front, parsed from a cursor moved by the length of \<open>pre\<close>, gives the
  same result with the cursor moved.  So a text can be parsed line by line.
\<close>

lemma processLine_pos: "st_pos (fst (snd (processLine l (sl, st, q)))) = st_pos st"
  by (auto simp: processLine_def processField_def dispatchMessage_def Let_def split: option.splits)

lemma processField_posShift:
  "processField n v (posShift k p) = posShift k (processField n v p)"
  by (cases p) (simp add: processField_def posShift_def Let_def)

lemma dispatchMessage_posShift:
  "dispatchMessage (posShift k p) = posShift k (dispatchMessage p)"
  by (cases p) (simp add: dispatchMessage_def posShift_def Let_def split: option.splits)

lemma processLine_posShift:
  "processLine l (posShift k p) = posShift k (processLine l p)"
  by (simp add: processLine_def Let_def processField_posShift dispatchMessage_posShift)

lemma LINE_exec_shift:
  "LINE_exec (pre @ b) (length pre + i) =
     map_option (\<lambda>(l, j). (l, length pre + j)) (LINE_exec b i)"
  by (simp add: LINE_exec_def Let_def nth_append)

lemma parseStream_loop_shift:
  "parseStream_loop (pre @ b) (length pre + i) (posShift (length pre) p) =
     posShift (length pre) (parseStream_loop b i p)"
proof (induction b i p rule: parseStream_loop.induct)
  case (1 buffer lastIndex p)
  show ?case
  proof (cases "LINE_exec buffer lastIndex")
    case None
    then show ?thesis
      by (simp add: parseStream_loop.simps [of buffer lastIndex]
            parseStream_loop.simps [of "pre @ buffer"] LINE_exec_shift)
  next
    case (Some a)
    obtain line j where a: "a = (line, j)" by (cases a)
    obtain sl st q where p: "p = (sl, st, q)" by (cases p)
    have ih: "parseStream_loop (pre @ buffer) (length pre + j)
            (posShift (length pre) (processLine line (sl, st\<lparr>st_pos := j\<rparr>, q))) =
          posShift (length pre)
            (parseStream_loop buffer j (processLine line (sl, st\<lparr>st_pos := j\<rparr>, q)))"
      using "1.IH" Some a p by simp
    have e: "processLine line (sl, st\<lparr>st_pos := length pre + j\<rparr>, q) =
             posShift (length pre) (processLine line (sl, st\<lparr>st_pos := j\<rparr>, q))"
      using processLine_posShift [of line "length pre" "(sl, st\<lparr>st_pos := j\<rparr>, q)"]
      by (simp add: posShift_def)
    show ?thesis
      using ih Some a p
      by (simp add: parseStream_loop.simps [of buffer lastIndex]
            parseStream_loop.simps [of "pre @ buffer" "length pre + lastIndex"] LINE_exec_shift
            posShift_def [of "length pre" "(sl, st, q)"] e)
  qed
qed

lemma parseStream_shift:
  "parseStream (pre @ b) (posShift (length pre) p) = posShift (length pre) (parseStream b p)"
proof -
  obtain sl st q where p: "p = (sl, st, q)" by (cases p)
  show ?thesis
    using parseStream_loop_shift [of pre b "st_pos st" p]
    by (simp add: parseStream_def p posShift_def)
qed

lemma posShift_posShift: "posShift k (posShift m p) = posShift (k + m) p"
  by (cases p) (simp add: posShift_def)

lemma posShift_0: "posShift 0 p = p"
  by (cases p) (simp add: posShift_def)

lemma parseStream_Nil: "parseStream [] p = p"
  by (cases p) (simp add: parseStream_def parseStream_loop.simps [of "[]"] LINE_exec_def)

lemma LINE_exec_LF:
  assumes "list_all (\<lambda>c. c \<noteq> CR \<and> c \<noteq> LF) l"
  shows "LINE_exec (l @ LF # rest) 0 = Some (l, Suc (length l))"
proof -
  have t: "takeWhile (\<lambda>c. c \<noteq> CR \<and> c \<noteq> LF) (l @ LF # rest) = l"
    using assms by (induction l) auto
  have ne: "LF \<noteq> CR" by (simp add: CR_def LF_def)
  show ?thesis
    by (simp add: LINE_exec_def Let_def t nth_append ne)
qed

lemma parseStream_line:
  assumes "list_all (\<lambda>c. c \<noteq> CR \<and> c \<noteq> LF) l" and "st_pos (fst (snd p)) = 0"
  shows "parseStream (l @ LF # rest) p =
           posShift (Suc (length l)) (parseStream rest (processLine l p))"
proof -
  obtain sl st q where p: "p = (sl, st, q)" by (cases p)
  have z: "st_pos st = 0" using assms(2) p by simp
  define p' where "p' = processLine l (sl, st, q)"
  have pos: "st_pos (fst (snd p')) = 0"
    unfolding p'_def using z by (simp add: processLine_pos)
  have e: "processLine l (sl, st\<lparr>st_pos := Suc (length l)\<rparr>, q) = posShift (length (l @ [LF])) p'"
    using processLine_posShift [of l "Suc (length l)" "(sl, st, q)"] z
    by (simp add: posShift_def p'_def)
  have "parseStream (l @ LF # rest) p =
        parseStream_loop ((l @ [LF]) @ rest) (length (l @ [LF]) + 0)
          (posShift (length (l @ [LF])) p')"
    using z LINE_exec_LF [OF assms(1), of rest] e
    by (subst parseStream_def, simp add: p, subst parseStream_loop.simps) simp
  also have "\<dots> = posShift (length (l @ [LF])) (parseStream_loop rest 0 p')"
    by (rule parseStream_loop_shift)
  also have "parseStream_loop rest 0 p' = parseStream rest p'"
    using pos by (cases p') (simp add: parseStream_def)
  finally show ?thesis by (simp add: p'_def p)
qed

lemma fold_processLine_pos:
  "st_pos (fst (snd (fold processLine ls p))) = st_pos (fst (snd p))"
proof (induction ls arbitrary: p)
  case Nil
  then show ?case by simp
next
  case (Cons l ls)
  obtain sl st q where p: "p = (sl, st, q)" by (cases p)
  show ?case using Cons [of "processLine l p"] by (simp add: p processLine_pos)
qed

lemma parseStream_lines:
  assumes "list_all (list_all (\<lambda>c. c \<noteq> CR \<and> c \<noteq> LF)) ls" and "st_pos (fst (snd p)) = 0"
  shows "parseStream (concat (map (\<lambda>l. l @ [LF]) ls) @ rest) p =
           posShift (length (concat (map (\<lambda>l. l @ [LF]) ls)))
             (parseStream rest (fold processLine ls p))"
  using assms
proof (induction ls arbitrary: p)
  case Nil
  then show ?case by (simp add: posShift_0)
next
  case (Cons l ls)
  obtain sl st q where p: "p = (sl, st, q)" by (cases p)
  have pos: "st_pos (fst (snd (processLine l p))) = 0"
    using Cons.prems(2) by (simp add: p processLine_pos)
  have "parseStream (concat (map (\<lambda>l. l @ [LF]) (l # ls)) @ rest) p =
        parseStream (l @ LF # (concat (map (\<lambda>l. l @ [LF]) ls) @ rest)) p"
    by simp
  also have "\<dots> = posShift (Suc (length l))
        (parseStream (concat (map (\<lambda>l. l @ [LF]) ls) @ rest) (processLine l p))"
    using Cons.prems by (intro parseStream_line) simp_all
  also have "\<dots> = posShift (Suc (length l))
        (posShift (length (concat (map (\<lambda>l. l @ [LF]) ls)))
           (parseStream rest (fold processLine ls (processLine l p))))"
    using Cons.IH [OF _ pos] Cons.prems(1) by simp
  finally show ?case by (simp add: posShift_posShift)
qed

section \<open>Event blocks\<close>

lemma processFields_snoc:
  "processFields (fs @ [(n, v)]) p = processField n v (processFields fs p)"
  by (simp add: processFields_def)

lemma names_distinct:
  "js ''event'' \<noteq> js ''data''" "js ''event'' \<noteq> js ''id''" "js ''event'' \<noteq> js ''retry''"
  "js ''data'' \<noteq> js ''id''" "js ''data'' \<noteq> js ''retry''" "js ''id'' \<noteq> js ''retry''"
  by (simp_all add: js_def)

lemma fieldValues_snoc:
  "fieldValues name (fs @ [(n, v)]) =
     fieldValues name fs @ (if toLowerCase n = js name then [v] else [])"
  by (simp add: fieldValues_def)

lemma fieldValues_Nil: "fieldValues name [] = []"
  by (simp add: fieldValues_def)

lemma processFields_result:
  "\<exists>rt. processFields fs (sl, st, q) =
     (sl\<lparr>reconnectionTime := rt\<rparr>,
      st\<lparr>st_data := st_data st @ accumulated (fieldValues ''data'' fs),
         st_type := (if fieldValues ''event'' fs = [] then st_type st
                     else last (fieldValues ''event'' fs)),
         st_lastEventId :=
           (if filter (\<lambda>v. NUL \<notin> set v) (fieldValues ''id'' fs) = [] then st_lastEventId st
            else Some (last (filter (\<lambda>v. NUL \<notin> set v) (fieldValues ''id'' fs))))\<rparr>,
      q)"
proof (induction fs rule: rev_induct)
  case Nil
  have "sl = sl\<lparr>reconnectionTime := reconnectionTime sl\<rparr>" by simp
  then show ?case
    by (auto simp: processFields_def fieldValues_Nil accumulated_def intro!: exI [of _ "reconnectionTime sl"])
next
  case (snoc x fs)
  obtain n v where x: "x = (n, v)" by (cases x)
  from snoc obtain rt where r: "processFields fs (sl, st, q) =
     (sl\<lparr>reconnectionTime := rt\<rparr>,
      st\<lparr>st_data := st_data st @ accumulated (fieldValues ''data'' fs),
         st_type := (if fieldValues ''event'' fs = [] then st_type st
                     else last (fieldValues ''event'' fs)),
         st_lastEventId :=
           (if filter (\<lambda>v. NUL \<notin> set v) (fieldValues ''id'' fs) = [] then st_lastEventId st
            else Some (last (filter (\<lambda>v. NUL \<notin> set v) (fieldValues ''id'' fs))))\<rparr>,
      q)" by blast
  show ?case
    unfolding x processFields_snoc r
    by (auto simp: processField_def Let_def fieldValues_snoc names_distinct accumulated_def
          names_distinct [symmetric])
qed

lemma joinLF_butlast: "ds \<noteq> [] \<Longrightarrow> butlast (accumulated ds) = joinLF ds"
  by (induction ds rule: joinLF.induct) (auto simp: accumulated_def butlast_append)

lemma accumulated_empty: "(accumulated ds = []) = (ds = [])"
  by (cases ds) (simp_all add: accumulated_def)

lemma indexOf_field:
  assumes "list_all (\<lambda>c. c \<noteq> COLON \<and> c \<noteq> CR \<and> c \<noteq> LF) n"
  shows "indexOf (n @ COLON # x) COLON = int (length n)"
  using assms by (induction n) (auto simp: Let_def)

lemma processLine_fieldLine:
  assumes "wellFormedField (n, v)"
  shows "processLine (fieldLine (n, v)) p = processField n v p"
proof -
  have n: "n \<noteq> []" "list_all (\<lambda>c. c \<noteq> COLON \<and> c \<noteq> CR \<and> c \<noteq> LF) n"
    using assms by (simp_all add: wellFormedField_def)
  have i: "indexOf (n @ COLON # SPACE # v) COLON = int (length n)"
    using n(2) by (rule indexOf_field)
  have "length n \<ge> 1" using n(1) by (cases n) simp_all
  then show ?thesis
    using n(1) by (simp add: processLine_def fieldLine_def i Let_def nth_append)
qed


lemma fieldLine_no_terminator:
  assumes "wellFormedField f"
  shows "list_all (\<lambda>c. c \<noteq> CR \<and> c \<noteq> LF) (fieldLine f)"
proof -
  obtain n v where f: "f = (n, v)" by (cases f)
  have "COLON \<noteq> CR" "COLON \<noteq> LF" "SPACE \<noteq> CR" "SPACE \<noteq> LF"
    by (simp_all add: COLON_def SPACE_def CR_def LF_def)
  then show ?thesis
    using assms unfolding f wellFormedField_def fieldLine_def
    by (auto simp: list_all_iff)
qed

lemma fold_processLine_fields:
  "list_all wellFormedField fs \<Longrightarrow>
   fold processLine (map fieldLine fs) p = processFields fs p"
proof (induction fs arbitrary: p)
  case Nil
  then show ?case by (simp add: processFields_def)
next
  case (Cons f fs)
  obtain n v where f: "f = (n, v)" by (cases f)
  have "processLine (fieldLine f) p = processField n v p"
    using Cons.prems processLine_fieldLine [of n v p] by (simp add: f)
  then show ?case
    using Cons by (simp add: processFields_def f)
qed

lemma parseStream_blockText:
  assumes "list_all wellFormedField fs" and "st_pos (fst (snd p)) = 0"
  shows "parseStream (blockText fs) p = posShift (length (blockText fs)) (eventBlock fs p)"
proof -
  define ls where "ls = map fieldLine fs"
  define p' where "p' = fold processLine ls p"
  have nt: "list_all (list_all (\<lambda>c. c \<noteq> CR \<and> c \<noteq> LF)) ls"
    using assms(1) fieldLine_no_terminator by (auto simp: ls_def list_all_iff)
  have t: "blockText fs = concat (map (\<lambda>l. l @ [LF]) ls) @ [LF]"
    by (simp add: blockText_def ls_def comp_def)
  have pos: "st_pos (fst (snd p')) = 0"
    unfolding p'_def using assms(2) by (simp add: fold_processLine_pos)
  have "parseStream ([] @ LF # []) p' = posShift (Suc (length ([]::jsstring)))
          (parseStream [] (processLine [] p'))"
    using pos by (intro parseStream_line) simp_all
  then have last: "parseStream [LF] p' = posShift 1 (dispatchMessage p')"
    by (simp add: parseStream_Nil processLine_def)
  have "parseStream (blockText fs) p =
        posShift (length (concat (map (\<lambda>l. l @ [LF]) ls))) (parseStream [LF] p')"
    unfolding t p'_def using nt assms(2) by (rule parseStream_lines)
  also have "\<dots> = posShift (length (blockText fs)) (dispatchMessage p')"
    by (simp add: last posShift_posShift t)
  also have "p' = processFields fs p"
    unfolding p'_def ls_def using assms(1) by (rule fold_processLine_fields)
  finally show ?thesis by (simp add: eventBlock_def)
qed

text \<open>
  C4: an event block that starts with empty pending data and type.  The accumulated
  data is every \<open>data\<close> value followed by a newline, so it is empty exactly when the
  block has no \<open>data\<close> field.  If it is not empty, exactly one message task is queued:
  its data is the \<open>data\<close> values joined by newlines (the accumulated data without its
  last newline), its type is the last \<open>event\<close> value, or \<open>message\<close> when there is
  none or it is empty.  If it is empty, nothing is queued.  In both cases the last
  \<open>id\<close> value without NUL (or else the id pending from an earlier block) becomes
  \<open>lastEventId\<close> of the slots.  And this is what \<open>parseStream\<close> does with the text
  of the block, when its fields are written \<open>name: value\<close>.
\<close>

theorem event_block_dispatch:
  assumes "st_data st = []" and "st_type st = []"
  shows
   "(let ds = fieldValues ''data'' fs;
         ts = fieldValues ''event'' fs;
         ids = filter (\<lambda>v. NUL \<notin> set v) (fieldValues ''id'' fs);
         r = eventBlock fs (sl, st, q);
         committed = (if ids \<noteq> [] then last ids
                      else case st_lastEventId st of None \<Rightarrow> lastEventId sl | Some i \<Rightarrow> i)
     in st_data (fst (snd (processFields fs (sl, st, q)))) = accumulated ds \<and>
        (accumulated ds = []) = (ds = []) \<and>
        (ds \<noteq> [] \<longrightarrow> joinLF ds = butlast (accumulated ds)) \<and>
        lastEventId (fst r) = committed \<and>
        snd (snd r) =
          (if ds = [] then q
           else q @ [TMessage
                  \<lparr>ev_type = (if ts = [] \<or> last ts = [] then js ''message'' else last ts),
                   ev_data = joinLF ds,
                   ev_origin = st_origin st,
                   ev_lastEventId = committed\<rparr>]) \<and>
        st_data (fst (snd r)) = [] \<and> st_type (fst (snd r)) = [] \<and>
        (list_all wellFormedField fs \<and> st_pos st = 0 \<longrightarrow>
           parseStream (blockText fs) (sl, st, q) = posShift (length (blockText fs)) r))"
proof -
  obtain rt where r: "processFields fs (sl, st, q) =
     (sl\<lparr>reconnectionTime := rt\<rparr>,
      st\<lparr>st_data := st_data st @ accumulated (fieldValues ''data'' fs),
         st_type := (if fieldValues ''event'' fs = [] then st_type st
                     else last (fieldValues ''event'' fs)),
         st_lastEventId :=
           (if filter (\<lambda>v. NUL \<notin> set v) (fieldValues ''id'' fs) = [] then st_lastEventId st
            else Some (last (filter (\<lambda>v. NUL \<notin> set v) (fieldValues ''id'' fs))))\<rparr>,
      q)"
    using processFields_result [of fs sl st q] by blast
  have b: "list_all wellFormedField fs \<and> st_pos st = 0 \<longrightarrow>
           parseStream (blockText fs) (sl, st, q) =
             posShift (length (blockText fs)) (eventBlock fs (sl, st, q))"
    using parseStream_blockText [of fs "(sl, st, q)"] by simp
  have a: "st_data (fst (snd (processFields fs (sl, st, q)))) =
             accumulated (fieldValues ''data'' fs) \<and>
        lastEventId (fst (eventBlock fs (sl, st, q))) =
          (if filter (\<lambda>v. NUL \<notin> set v) (fieldValues ''id'' fs) \<noteq> []
           then last (filter (\<lambda>v. NUL \<notin> set v) (fieldValues ''id'' fs))
           else case st_lastEventId st of None \<Rightarrow> lastEventId sl | Some i \<Rightarrow> i) \<and>
        snd (snd (eventBlock fs (sl, st, q))) =
          (if fieldValues ''data'' fs = [] then q
           else q @ [TMessage
                  \<lparr>ev_type = (if fieldValues ''event'' fs = [] \<or> last (fieldValues ''event'' fs) = []
                              then js ''message'' else last (fieldValues ''event'' fs)),
                   ev_data = joinLF (fieldValues ''data'' fs),
                   ev_origin = st_origin st,
                   ev_lastEventId =
                     (if filter (\<lambda>v. NUL \<notin> set v) (fieldValues ''id'' fs) \<noteq> []
                      then last (filter (\<lambda>v. NUL \<notin> set v) (fieldValues ''id'' fs))
                      else case st_lastEventId st of None \<Rightarrow> lastEventId sl
                           | Some i \<Rightarrow> i)\<rparr>]) \<and>
        st_data (fst (snd (eventBlock fs (sl, st, q)))) = [] \<and>
        st_type (fst (snd (eventBlock fs (sl, st, q)))) = []"
    unfolding eventBlock_def r
    using assms joinLF_butlast [of "fieldValues ''data'' fs"]
    by (auto simp: dispatchMessage_def Let_def accumulated_empty split: option.splits)
  show ?thesis
    unfolding Let_def
    using a b joinLF_butlast [of "fieldValues ''data'' fs"]
    by (simp add: accumulated_empty)
qed

theorem event_block_dispatch_witness:
  "st_data initialState = [] \<and> st_type initialState = [] \<and>
   list_all wellFormedField [(js ''id'', js ''7''), (js ''event'', js ''hi'')] \<and>
   st_pos initialState = 0 \<and>
   eventBlock [(js ''data'', js ''one''), (js ''Data'', js ''two''),
               (js ''id'', js ''7''), (js ''event'', js ''hi'')]
     (initialSlots (Finite 4000), initialState, []) =
   ((initialSlots (Finite 4000))\<lparr>lastEventId := js ''7''\<rparr>,
    initialState\<lparr>st_lastEventId := Some (js ''7'')\<rparr>,
    [TMessage \<lparr>ev_type = js ''hi'', ev_data = js ''one'' @ [LF] @ js ''two'',
               ev_origin = [], ev_lastEventId = js ''7''\<rparr>]) \<and>
   snd (snd (eventBlock [(js ''id'', js ''7''), (js ''event'', js ''hi'')]
     (initialSlots (Finite 4000), initialState, []))) = [] \<and>
   lastEventId (fst (eventBlock [(js ''id'', js ''7''), (js ''event'', js ''hi'')]
     (initialSlots (Finite 4000), initialState, []))) = js ''7'' \<and>
   parseStream (js ''id: 7'' @ [LF] @ js ''event: hi'' @ [LF, LF])
     (initialSlots (Finite 4000), initialState, []) =
   posShift 17 (eventBlock [(js ''id'', js ''7''), (js ''event'', js ''hi'')]
     (initialSlots (Finite 4000), initialState, []))"
proof -
  have h: "st_data initialState = []" "st_type initialState = []"
    by (simp_all add: initialState_def)
  have g: "list_all wellFormedField [(js ''id'', js ''7''), (js ''event'', js ''hi'')]"
    "st_pos initialState = 0"
    by (simp_all add: wellFormedField_def js_def COLON_def CR_def LF_def initialState_def)
  have t: "blockText [(js ''id'', js ''7''), (js ''event'', js ''hi'')] =
           js ''id: 7'' @ [LF] @ js ''event: hi'' @ [LF, LF]"
    by (simp add: blockText_def fieldLine_def js_def COLON_def SPACE_def)
  have l: "length (js ''id: 7'' @ [LF] @ js ''event: hi'' @ [LF, LF]) = 17"
    by (simp add: js_def)
  have a: "snd (snd (eventBlock [(js ''id'', js ''7''), (js ''event'', js ''hi'')]
     (initialSlots (Finite 4000), initialState, []))) = [] \<and>
   lastEventId (fst (eventBlock [(js ''id'', js ''7''), (js ''event'', js ''hi'')]
     (initialSlots (Finite 4000), initialState, []))) = js ''7'' \<and>
   parseStream (js ''id: 7'' @ [LF] @ js ''event: hi'' @ [LF, LF])
     (initialSlots (Finite 4000), initialState, []) =
   posShift 17 (eventBlock [(js ''id'', js ''7''), (js ''event'', js ''hi'')]
     (initialSlots (Finite 4000), initialState, []))"
    using event_block_dispatch [OF h, of "[(js ''id'', js ''7''), (js ''event'', js ''hi'')]"
        "initialSlots (Finite 4000)" "[]"] g
    unfolding t l
    by (simp add: Let_def fieldValues_def js_def toLowerCase_def lowerUnit_def NUL_def)
  have b: "eventBlock [(js ''data'', js ''one''), (js ''Data'', js ''two''),
               (js ''id'', js ''7''), (js ''event'', js ''hi'')]
     (initialSlots (Finite 4000), initialState, []) =
   ((initialSlots (Finite 4000))\<lparr>lastEventId := js ''7''\<rparr>,
    initialState\<lparr>st_lastEventId := Some (js ''7'')\<rparr>,
    [TMessage \<lparr>ev_type = js ''hi'', ev_data = js ''one'' @ [LF] @ js ''two'',
               ev_origin = [], ev_lastEventId = js ''7''\<rparr>])"
    by (simp add: eventBlock_def processFields_def processField_def dispatchMessage_def
          initialSlots_def initialState_def js_def toLowerCase_def lowerUnit_def NUL_def
          LF_def Let_def)
  show ?thesis using h g a b by simp
qed

section \<open>A byte-order mark at the start of the stream\<close>

lemma lowerUnit_BOM: "lowerUnit BOM = [BOM]"
  by (simp add: lowerUnit_def BOM_def)

lemma toLowerCase_BOM: "toLowerCase (BOM # n) = BOM # toLowerCase n"
  by (simp add: toLowerCase_def lowerUnit_BOM)

lemma BOM_name_unknown:
  "toLowerCase (BOM # n) \<noteq> js ''event''" "toLowerCase (BOM # n) \<noteq> js ''data''"
  "toLowerCase (BOM # n) \<noteq> js ''id''" "toLowerCase (BOM # n) \<noteq> js ''retry''"
  unfolding toLowerCase_BOM by (simp_all add: js_def BOM_def)

lemma processField_BOM: "processField (BOM # n) v p = p"
  by (cases p) (simp add: processField_def BOM_name_unknown Let_def)

lemma processLine_BOM: "processLine (BOM # l) p = p"
proof -
  have "indexOf (BOM # l) COLON \<ge> 1 \<Longrightarrow>
        take (nat (indexOf (BOM # l) COLON)) (BOM # l) =
        BOM # take (nat (indexOf (BOM # l) COLON) - 1) l"
    by (cases "nat (indexOf (BOM # l) COLON)") simp_all
  then show ?thesis
    by (auto simp: processLine_def Let_def processField_BOM simp del: indexOf.simps)
qed


lemma LINE_exec_first:
  assumes "list_all (\<lambda>c. c \<noteq> CR \<and> c \<noteq> LF) l" and "startsWithTerminator body"
  shows "\<exists>j. LINE_exec (l @ body) 0 = Some (l, length l + j) \<and> LINE_exec body 0 = Some ([], j)"
proof -
  obtain c cs where b: "body = c # cs" and c: "c = CR \<or> c = LF"
    using assms(2) by (auto simp: startsWithTerminator_def split: list.splits)
  have t: "takeWhile (\<lambda>c. c \<noteq> CR \<and> c \<noteq> LF) (l @ c # cs) = l"
    using assms(1) c by (induction l) auto
  have n: "(l @ c # cs) ! Suc (length l) = cs ! 0"
    by (simp add: nth_append)
  show ?thesis
    unfolding b using c
    by (auto simp: LINE_exec_def Let_def t n nth_append)
qed

lemma bom_first_line_single_feed:
  assumes "list_all (\<lambda>c. c \<noteq> CR \<and> c \<noteq> LF) l" and "startsWithTerminator body"
    and "st_data st = []" and "st_type st = []" and "st_lastEventId st = None"
    and "st_pos st = 0"
  shows "parseStream (BOM # l @ body) (sl, st, q) =
           posShift (Suc (length l)) (parseStream body (sl, st, q))"
proof -
  have l': "list_all (\<lambda>c. c \<noteq> CR \<and> c \<noteq> LF) (BOM # l)"
    using assms(1) by (simp add: BOM_def CR_def LF_def)
  from LINE_exec_first [OF l' assms(2)] obtain j where
    a: "LINE_exec ((BOM # l) @ body) 0 = Some (BOM # l, length (BOM # l) + j)" and
    b: "LINE_exec body 0 = Some ([], j)" by blast
  have d: "dispatchMessage (sl, st\<lparr>st_pos := j\<rparr>, q) = (sl, st\<lparr>st_pos := j\<rparr>, q)"
    using assms(3-5) by (simp add: dispatchMessage_def Let_def)
  have "parseStream ((BOM # l) @ body) (sl, st, q) =
        parseStream_loop ((BOM # l) @ body) (length (BOM # l) + j)
          (sl, st\<lparr>st_pos := length (BOM # l) + j\<rparr>, q)"
    using assms(6) a
    by (subst parseStream_def, simp, subst parseStream_loop.simps)
       (simp add: processLine_BOM)
  also have "(sl, st\<lparr>st_pos := length (BOM # l) + j\<rparr>, q) =
        posShift (length (BOM # l)) (sl, st\<lparr>st_pos := j\<rparr>, q)"
    by (simp add: posShift_def)
  also have "parseStream_loop ((BOM # l) @ body) (length (BOM # l) + j)
          (posShift (length (BOM # l)) (sl, st\<lparr>st_pos := j\<rparr>, q)) =
        posShift (length (BOM # l)) (parseStream_loop body j (sl, st\<lparr>st_pos := j\<rparr>, q))"
    by (rule parseStream_loop_shift)
  also have "parseStream_loop body j (sl, st\<lparr>st_pos := j\<rparr>, q) = parseStream body (sl, st, q)"
    using assms(6) b d
    by (subst parseStream_def, simp, subst (2) parseStream_loop.simps)
       (simp add: processLine_def)
  finally show ?thesis by simp
qed

lemma feed_shift:
  "feed (map (\<lambda>b. pre @ b) bs) (posShift (length pre) p) = posShift (length pre) (feed bs p)"
  by (induction bs arbitrary: p) (simp_all add: feed_def parseStream_shift)

text \<open>
  A text that begins with U+FEFF and holds its whole first line, terminator included:
  over any number of calls of \<open>parseStream\<close> on a new request, the slots, the
  pending fields and the queued tasks are those of the same texts with the content of
  the first line removed (its terminator stays, so the first line is empty); only the
  cursor differs, by the length of what was removed.
\<close>

lemma bom_first_line_skipped:
  assumes "list_all (\<lambda>c. c \<noteq> CR \<and> c \<noteq> LF) l" and "startsWithTerminator body"
    and "st_data st = []" and "st_type st = []" and "st_lastEventId st = None"
    and "st_pos st = 0"
  shows "feed (map (\<lambda>b. BOM # l @ b) (body # bs)) (sl, st, q) =
           posShift (Suc (length l)) (feed (body # bs) (sl, st, q))"
proof -
  have "feed (map (\<lambda>b. BOM # l @ b) (body # bs)) (sl, st, q) =
        feed (map (\<lambda>b. (BOM # l) @ b) bs) (parseStream (BOM # l @ body) (sl, st, q))"
    by (simp add: feed_def)
  also have "\<dots> = feed (map (\<lambda>b. (BOM # l) @ b) bs)
                     (posShift (length (BOM # l)) (parseStream body (sl, st, q)))"
    using bom_first_line_single_feed [OF assms] by simp
  also have "\<dots> = posShift (length (BOM # l)) (feed bs (parseStream body (sl, st, q)))"
    by (rule feed_shift)
  finally show ?thesis by (simp add: feed_def)
qed

lemmas parse_eval = parseStream_def parseStream_loop.simps LINE_exec_def processLine_def
  processField_def dispatchMessage_def toLowerCase_def lowerUnit_def js_def
  CR_def LF_def COLON_def SPACE_def NUL_def BOM_def initialState_def initialSlots_def Let_def


section \<open>A CRLF split between two chunks\<close>

text \<open>
  When the text received so far does not end inside a CRLF, parsing it first and the
  longer text afterwards is the same as parsing the longer text at once, from any
  parsing state.
\<close>

lemma takeWhile_append_hit:
  assumes "\<exists>x \<in> set xs. \<not> P x"
  shows "takeWhile P (xs @ ys) = takeWhile P xs"
  using assms by (induction xs) auto

lemma takeWhile_short:
  "length (takeWhile P xs) < length xs \<Longrightarrow> \<exists>x \<in> set xs. \<not> P x"
  by (induction xs) (auto split: if_splits)

lemma LINE_exec_append:
  assumes "LINE_exec a i = Some (l, j)" and "\<not> splitsCRLF a b"
  shows "LINE_exec (a @ b) i = Some (l, j)"
proof -
  define line where "line = takeWhile (\<lambda>c. c \<noteq> CR \<and> c \<noteq> LF) (drop i a)"
  define k where "k = i + length line"
  have i: "i \<le> length a" and k: "k < length a"
    using assms(1) by (auto simp: LINE_exec_def Let_def line_def k_def split: if_splits)
  have "length line < length (drop i a)" using k i by (simp add: k_def)
  then have "\<exists>x \<in> set (drop i a). \<not> (x \<noteq> CR \<and> x \<noteq> LF)"
    unfolding line_def by (rule takeWhile_short)
  then have t: "takeWhile (\<lambda>c. c \<noteq> CR \<and> c \<noteq> LF) (drop i a @ b) = line"
    unfolding line_def by (rule takeWhile_append_hit)
  have ne: "a \<noteq> []" using k by auto
  have cr: "a ! k = CR \<Longrightarrow> Suc k = length a \<Longrightarrow> b = [] \<or> b ! 0 \<noteq> LF"
  proof -
    assume c: "a ! k = CR" and e: "Suc k = length a"
    have "length a - 1 = k" using e by simp
    then have "last a = CR" using c ne by (simp add: last_conv_nth)
    with assms(2) ne show ?thesis by (auto simp: splitsCRLF_def hd_conv_nth)
  qed
  have "LINE_exec (a @ b) i =
        (if (a @ b) ! k = CR \<and> k + 1 < length (a @ b) \<and> (a @ b) ! (k + 1) = LF
         then Some (line, k + 2) else Some (line, k + 1))"
    using i k by (simp add: LINE_exec_def Let_def t line_def [symmetric] k_def [symmetric])
  moreover have "LINE_exec a i =
        (if a ! k = CR \<and> k + 1 < length a \<and> a ! (k + 1) = LF
         then Some (line, k + 2) else Some (line, k + 1))"
    using i k by (simp add: LINE_exec_def Let_def line_def [symmetric] k_def [symmetric])
  moreover have "((a @ b) ! k = CR \<and> k + 1 < length (a @ b) \<and> (a @ b) ! (k + 1) = LF) =
                 (a ! k = CR \<and> k + 1 < length a \<and> a ! (k + 1) = LF)"
    using k cr by (cases "Suc k = length a") (auto simp: nth_append)
  ultimately show ?thesis using assms(1) by simp
qed

lemma parseStream_loop_resume:
  "\<not> splitsCRLF a b \<Longrightarrow> st_pos (fst (snd p)) = i \<Longrightarrow>
   parseStream (a @ b) (parseStream_loop a i p) = parseStream_loop (a @ b) i p"
proof (induction a i p rule: parseStream_loop.induct)
  case (1 buffer lastIndex p)
  obtain sl st q where p: "p = (sl, st, q)" by (cases p)
  show ?case
  proof (cases "LINE_exec buffer lastIndex")
    case None
    then show ?thesis
      using "1.prems" p
      by (simp add: parseStream_loop.simps [of buffer lastIndex] parseStream_def)
  next
    case (Some x)
    obtain line j where x: "x = (line, j)" by (cases x)
    define p' where "p' = processLine line (sl, st\<lparr>st_pos := j\<rparr>, q)"
    have pos: "st_pos (fst (snd p')) = j"
      unfolding p'_def by (simp add: processLine_pos)
    have ih: "parseStream (buffer @ b) (parseStream_loop buffer j p') =
              parseStream_loop (buffer @ b) j p'"
      using "1.IH" [OF Some x [symmetric] p [symmetric]] "1.prems"(1) pos
      unfolding p'_def by simp
    have e: "LINE_exec (buffer @ b) lastIndex = Some (line, j)"
      using LINE_exec_append [OF _ "1.prems"(1), of lastIndex line j] Some x by simp
    show ?thesis
      using ih Some x p e
      by (simp add: parseStream_loop.simps [of buffer lastIndex]
            parseStream_loop.simps [of "buffer @ b" lastIndex] p'_def)
  qed
qed

lemma chunking_invariant_without_split:
  assumes "\<not> splitsCRLF a b"
  shows "parseStream (a @ b) (parseStream a p) = parseStream (a @ b) p"
proof -
  obtain sl st q where p: "p = (sl, st, q)" by (cases p)
  show ?thesis
    using parseStream_loop_resume [OF assms, of p "st_pos st"]
    by (simp add: p parseStream_def)
qed

text \<open>
  C1: the stream \<open>data: a CR LF data: b LF LF\<close>.  Parsed in one call it is one
  block, and one message with the data \<open>a LF b\<close> is queued.  When the first call
  sees the text up to the CR only, the CR ends the line at once, and in the next call
  the LF is a line terminator of its own, an empty line: two messages are queued.
\<close>

theorem crlf_split_across_chunks:
  "snd (snd (parseStream (js ''data: a'' @ [CR, LF] @ js ''data: b'' @ [LF, LF])
               (initialSlots (Finite 4000), initialState, []))) =
     [TMessage \<lparr>ev_type = js ''message'', ev_data = js ''a'' @ [LF] @ js ''b'',
                ev_origin = [], ev_lastEventId = []\<rparr>] \<and>
   snd (snd (parseStream (js ''data: a'' @ [CR, LF] @ js ''data: b'' @ [LF, LF])
               (parseStream (js ''data: a'' @ [CR])
                  (initialSlots (Finite 4000), initialState, [])))) =
     [TMessage \<lparr>ev_type = js ''message'', ev_data = js ''a'',
                ev_origin = [], ev_lastEventId = []\<rparr>,
      TMessage \<lparr>ev_type = js ''message'', ev_data = js ''b'',
                ev_origin = [], ev_lastEventId = []\<rparr>]"
  by (simp add: parse_eval)

section \<open>A response that is not 200\<close>

text \<open>
  The two ways in which the code does fail a connection: the first \<open>progress\<close> of a
  request with a wrong status or content type, and a \<open>load\<close> with status 204 before
  any \<open>progress\<close>.  Once the queued task has run, the connection is closed, one
  error event has been dispatched, and no request is ever created again.
\<close>

lemma invalid_first_response_fatal:
  assumes "rid < length (requests w)" and "xhr_first (requests w ! rid)"
    and "readyState (slots w) \<noteq> CLOSED" and "status \<noteq> 0"
    and "\<not> (status = 200 \<and> validContentType ct)" and "microtasks w = []"
  shows "readyState (slots (runNextTask (onprogress rid status ct origin t w))) = CLOSED \<and>
         delivered (runNextTask (onprogress rid status ct origin t w)) = delivered w @ [NError] \<and>
         length (requests (run es (runNextTask (onprogress rid status ct origin t w)))) =
           length (requests w) \<and>
         delivered (run es (runNextTask (onprogress rid status ct origin t w))) =
           delivered w @ [NError]"
proof -
  define w1 where
    "w1 = w\<lparr>requests := (requests w)[rid := (requests w ! rid)\<lparr>xhr_first := False\<rparr>]\<rparr>"
  have p: "onprogress rid status ct origin t w = failConnection w1"
    using assms by (cases "status = 200") (simp_all add: onprogress_cases w1_def)
  have r: "runNextTask (failConnection w1) = dispatchEvent NError (close (w1\<lparr>microtasks := []\<rparr>))"
  proof -
    have "readyState (slots w1) \<noteq> CLOSED" "microtasks w1 = []"
      using assms by (simp_all add: w1_def)
    then show ?thesis by (simp add: runNextTask_def failConnection_def queue_def)
  qed
  define w' where "w' = dispatchEvent NError (close (w1\<lparr>microtasks := []\<rparr>))"
  have f: "delivered w1 = delivered w" "length (requests w1) = length (requests w)"
    by (simp_all add: w1_def)
  have c: "readyState (slots w') = CLOSED" "delivered w' = delivered w @ [NError]"
    "length (requests w') = length (requests w)"
    using close_closed [of "w1\<lparr>microtasks := []\<rparr>"] f
    by (simp_all add: w'_def dispatchEvent_def)
  show ?thesis
    unfolding p r w'_def [symmetric] using c run_closed [OF c(1), of es] by simp
qed

lemma first_load_204_fatal:
  assumes "rid < length (requests w)" and "xhr_first (requests w ! rid)"
    and "readyState (slots w) \<noteq> CLOSED" and "microtasks w = []"
  shows "readyState (slots (runNextTask (onload rid 204 w))) = CLOSED \<and>
         delivered (runNextTask (onload rid 204 w)) = delivered w @ [NError] \<and>
         length (requests (run es (runNextTask (onload rid 204 w)))) = length (requests w) \<and>
         delivered (run es (runNextTask (onload rid 204 w))) = delivered w @ [NError]"
proof -
  define w1 where "w1 = w\<lparr>slots := (slots w)\<lparr>request := None\<rparr>\<rparr>"
  have p: "onload rid 204 w = failConnection w1"
    using assms by (simp add: onload_def w1_def Let_def)
  have r: "runNextTask (failConnection w1) = dispatchEvent NError (close (w1\<lparr>microtasks := []\<rparr>))"
  proof -
    have "readyState (slots w1) \<noteq> CLOSED" "microtasks w1 = []"
      using assms by (simp_all add: w1_def)
    then show ?thesis by (simp add: runNextTask_def failConnection_def queue_def)
  qed
  define w' where "w' = dispatchEvent NError (close (w1\<lparr>microtasks := []\<rparr>))"
  have f: "delivered w1 = delivered w" "length (requests w1) = length (requests w)"
    by (simp_all add: w1_def)
  have c: "readyState (slots w') = CLOSED" "delivered w' = delivered w @ [NError]"
    "length (requests w') = length (requests w)"
    using close_closed [of "w1\<lparr>microtasks := []\<rparr>"] f
    by (simp_all add: w'_def dispatchEvent_def)
  show ?thesis
    unfolding p r w'_def [symmetric] using c run_closed [OF c(1), of es] by simp
qed

lemmas conn_eval = newEventSource_def initialSlots_def createConnection_def initialState_def
  onload_def failConnection_def reestablishConnection_def queue_def Let_def

text \<open>
  C2: \<open>load\<close> with status 500 on a request that has had no \<open>progress\<close> before
  (\<open>first\<close> is still true).  Nothing is queued, no timer is set and \<open>readyState\<close>
  stays \<open>CONNECTING\<close>; with status 204 the same handler queues the task of
  \<open>failConnection\<close>.
\<close>

theorem load_500_without_progress:
  "readyState (slots (onload 0 500 (newEventSource True (Finite 4000) (Finite (3/2)) (Finite 65536)))) = CONNECTING \<and>
   microtasks (onload 0 500 (newEventSource True (Finite 4000) (Finite (3/2)) (Finite 65536))) = [] \<and>
   timers (onload 0 500 (newEventSource True (Finite 4000) (Finite (3/2)) (Finite 65536))) = [] \<and>
   delivered (onload 0 500 (newEventSource True (Finite 4000) (Finite (3/2)) (Finite 65536))) = [] \<and>
   run [RunTask, RunTask] (onload 0 500 (newEventSource True (Finite 4000) (Finite (3/2)) (Finite 65536))) =
     onload 0 500 (newEventSource True (Finite 4000) (Finite (3/2)) (Finite 65536)) \<and>
   microtasks (onload 0 204 (newEventSource True (Finite 4000) (Finite (3/2)) (Finite 65536))) = [TFail]"
  by (simp add: conn_eval run_def runNextTask_def)

end
